theory Spec2Isabelle
  imports Complex_Main "HOL-Library.Multiset"
begin

section \<open>Data model (types.ts)\<close>

text \<open>
  The quiz node of \<^verbatim>\<open>types.ts\<close>: \<^verbatim>\<open>DragDropQuizItem\<close>, \<^verbatim>\<open>DragDropQuizTarget\<close> and the
  fields of \<^verbatim>\<open>DragDropQuizNode\<close> the component reads. The field \<^verbatim>\<open>id\<close> of an item and
  of a target is written \<open>item_id\<close> and \<open>target_id\<close>.
\<close>

record DragDropQuizItem =
  item_id :: string
  textKey :: string

record DragDropQuizTarget =
  target_id :: string
  label :: string
  correctItemId :: string

record DragDropQuizNode =
  items :: "DragDropQuizItem list"
  targets :: "DragDropQuizTarget list"
  nextNode :: string
  incorrectNextNode :: string

section \<open>JavaScript values and objects\<close>

text \<open>
  The values the component stores and compares: \<^verbatim>\<open>undefined\<close> (what reading an absent
  property gives, and what \<^verbatim>\<open>Array.prototype.find\<close> gives when nothing matches),
  \<^verbatim>\<open>null\<close>, strings, and the values an ordinary object inherits from
  \<^verbatim>\<open>Object.prototype\<close>: \<open>Inherited n\<close> is what reading the inherited property \<open>n\<close> gives,
  \<^verbatim>\<open>Object.prototype\<close> itself for \<^verbatim>\<open>__proto__\<close> and a built-in function for every other
  name. These are objects, different from each other and from every string. Strict
  equality \<^verbatim>\<open>===\<close> on all of them is equality of \<open>jsval\<close>.
\<close>

datatype jsval = Undefined | Null | Str string | Inherited string

text \<open>The truth value of a value in a condition: \<^verbatim>\<open>undefined\<close>, \<^verbatim>\<open>null\<close> and the empty
  string are falsy, an object is truthy.\<close>

fun truthy :: "jsval \<Rightarrow> bool" where
  "truthy Undefined = False"
| "truthy Null = False"
| "truthy (Str s) = (s \<noteq> [])"
| "truthy (Inherited n) = True"

text \<open>
  \<^verbatim>\<open>type Placements = Record<string, string | null>\<close>: an ordinary object, embedded as
  the list of its own properties in the order \<^verbatim>\<open>Object.keys\<close> enumerates them (array-index
  keys in ascending numeric order first, then the other keys in creation order).
\<close>

type_synonym Placements = "(string \<times> jsval) list"

definition js_keys :: "Placements \<Rightarrow> string list" where
  "js_keys obj = map fst obj"

definition js_values :: "Placements \<Rightarrow> jsval list" where
  "js_values obj = map snd obj"

text \<open>The property names of \<^verbatim>\<open>Object.prototype\<close> (ECMAScript, with its Annex B). All are
  data properties holding functions, except the accessor \<^verbatim>\<open>__proto__\<close>.\<close>

definition prototype_names :: "string list" where
  "prototype_names =
     [''constructor'', ''hasOwnProperty'', ''isPrototypeOf'', ''propertyIsEnumerable'',
      ''toLocaleString'', ''toString'', ''valueOf'', ''__proto__'', ''__defineGetter__'',
      ''__defineSetter__'', ''__lookupGetter__'', ''__lookupSetter__'']"

text \<open>
  Reading \<^verbatim>\<open>obj[k]\<close>: an own property first, then the prototype chain. Every placements
  object a handler reads at a key that need not be its own is a copy \<^verbatim>\<open>{ ...placements }\<close>
  or a later state, and inherits from \<^verbatim>\<open>Object.prototype\<close>. (The initial object of a node
  with a target named \<^verbatim>\<open>__proto__\<close> has lost its prototype, see \<open>initialPlacements\<close>; it is
  read at its own keys and at the target ids only, and what is read is compared with
  strings only, for which \<^verbatim>\<open>undefined\<close> and an inherited object do the same.)
\<close>

definition js_get :: "Placements \<Rightarrow> string \<Rightarrow> jsval" where
  "js_get obj k =
     (case map_of obj k of
        Some v \<Rightarrow> v
      | None \<Rightarrow> if k \<in> set prototype_names then Inherited k else Undefined)"

text \<open>An array index is the canonical decimal numeral of an integer below \<open>2^32 - 1\<close>.\<close>

definition digit_value :: "char \<Rightarrow> nat" where
  "digit_value c = of_char c - 48"

definition index_value :: "string \<Rightarrow> nat" where
  "index_value s = foldl (\<lambda>n c. 10 * n + digit_value c) 0 s"

definition array_index :: "string \<Rightarrow> bool" where
  "array_index s =
     (s \<noteq> [] \<and> list_all (\<lambda>c. c \<in> set ''0123456789'') s
      \<and> (s = ''0'' \<or> hd s \<noteq> CHR ''0'') \<and> index_value s < 4294967295)"

text \<open>Creating a property: an array index goes before the first key that is no array
  index or a larger one, any other key goes last.\<close>

fun js_create :: "Placements \<Rightarrow> string \<Rightarrow> jsval \<Rightarrow> Placements" where
  "js_create [] k v = [(k, v)]"
| "js_create ((k', v') # rest) k v =
     (if array_index k \<and> (\<not> array_index k' \<or> index_value k < index_value k')
      then (k, v) # (k', v') # rest
      else (k', v') # js_create rest k v)"

text \<open>
  The assignment \<^verbatim>\<open>obj[k] = v\<close>, on an object that inherits from \<^verbatim>\<open>Object.prototype\<close>
  (\<open>inherits\<close>) or has no prototype; the result says whether it still inherits. An own
  property is overwritten in place. Otherwise, on an inheriting object, the key
  \<^verbatim>\<open>__proto__\<close> runs the inherited setter: no property is created, \<^verbatim>\<open>null\<close> removes the
  prototype, \<^verbatim>\<open>undefined\<close> and strings are ignored. (An object would become the new
  prototype; the component assigns objects to own keys only.) Every other assignment
  creates the property.
\<close>

definition js_assign :: "bool \<Rightarrow> Placements \<Rightarrow> string \<Rightarrow> jsval \<Rightarrow> Placements \<times> bool" where
  "js_assign inherits obj k v =
     (if k \<in> set (js_keys obj)
      then (map (\<lambda>(k', v'). if k' = k then (k', v) else (k', v')) obj, inherits)
      else if inherits \<and> k = ''__proto__''
      then (obj, v \<noteq> Null)
      else (js_create obj k v, inherits))"

text \<open>The assignment on a copy \<^verbatim>\<open>{ ...placements }\<close>, which inherits from
  \<^verbatim>\<open>Object.prototype\<close>.\<close>

definition js_set :: "Placements \<Rightarrow> string \<Rightarrow> jsval \<Rightarrow> Placements" where
  "js_set obj k v = fst (js_assign True obj k v)"

section \<open>The component DragDropQuiz\<close>

text \<open>The state of the two \<^verbatim>\<open>useState\<close> hooks.\<close>

record QuizState =
  placements :: Placements
  draggedItem :: jsval

text \<open>
  \<^verbatim>\<open>node.targets.reduce((acc, target) => { acc[target.id] = null; return acc; }, {})\<close>. The
  accumulator starts as \<^verbatim>\<open>{}\<close>, which inherits from \<^verbatim>\<open>Object.prototype\<close>; a target named
  \<^verbatim>\<open>__proto__\<close> takes its prototype away and gets no key (a second target of that name
  then gets one). \<open>initStep\<close> is the callback, on the accumulator together with whether
  it still inherits. The state keeps the own properties.
\<close>

definition initStep :: "Placements \<times> bool \<Rightarrow> DragDropQuizTarget \<Rightarrow> Placements \<times> bool" where
  "initStep acc target = js_assign (snd acc) (fst acc) (target_id target) Null"

definition initialPlacements :: "DragDropQuizNode \<Rightarrow> Placements" where
  "initialPlacements node = fst (foldl initStep ([], True) (targets node))"

definition initialState :: "DragDropQuizNode \<Rightarrow> QuizState" where
  "initialState node = \<lparr>placements = initialPlacements node, draggedItem = Null\<rparr>"

subsection \<open>The shuffle\<close>

text \<open>
  \<^verbatim>\<open>[...node.items].sort(() => Math.random() - 0.5)\<close>. The randomness source is the
  sequence of numbers the successive calls of \<^verbatim>\<open>Math.random\<close> return; the comparator
  ignores its arguments, so its \<open>n\<close>-th call returns \<open>rnd n - 0.5\<close>. ECMAScript leaves
  the algorithm of \<^verbatim>\<open>Array.prototype.sort\<close> to the engine; the embedding takes straight
  insertion sort: each element in turn moves left past its predecessor as long as
  \<^verbatim>\<open>comparefn(predecessor, element) > 0\<close>. The sorted prefix is kept reversed, and the
  number of comparator calls made so far is passed along. Which random numbers lead to
  which order depends on this choice, except where every comparator call returns zero:
  then any stable sort, as ECMAScript requires, keeps the order.
\<close>

type_synonym random_source = "nat \<Rightarrow> real"

definition comparefn :: "random_source \<Rightarrow> nat \<Rightarrow> real" where
  "comparefn rnd n = rnd n - 0.5"

fun sort_insert :: "random_source \<Rightarrow> nat \<Rightarrow> 'a \<Rightarrow> 'a list \<Rightarrow> 'a list \<times> nat" where
  "sort_insert rnd n element [] = ([element], n)"
| "sort_insert rnd n element (tmp # lower) =
     (if comparefn rnd n > 0
      then (case sort_insert rnd (Suc n) element lower of (r, n') \<Rightarrow> (tmp # r, n'))
      else (element # tmp # lower, Suc n))"

fun sort_loop :: "random_source \<Rightarrow> nat \<Rightarrow> 'a list \<Rightarrow> 'a list \<Rightarrow> 'a list" where
  "sort_loop rnd n sorted_rev [] = rev sorted_rev"
| "sort_loop rnd n sorted_rev (element # rest) =
     (case sort_insert rnd n element sorted_rev of
        (sorted_rev', n') \<Rightarrow> sort_loop rnd n' sorted_rev' rest)"

definition array_sort :: "random_source \<Rightarrow> 'a list \<Rightarrow> 'a list" where
  "array_sort rnd xs = sort_loop rnd 0 [] xs"

definition shuffledItems :: "random_source \<Rightarrow> DragDropQuizNode \<Rightarrow> DragDropQuizItem list" where
  "shuffledItems rnd node = array_sort rnd (items node)"

subsection \<open>Derived values of a render\<close>

text \<open>\<^verbatim>\<open>shuffledItems.filter(item => !Object.values(placements).includes(item.id))\<close>\<close>

definition unplacedItems :: "DragDropQuizItem list \<Rightarrow> Placements \<Rightarrow> DragDropQuizItem list" where
  "unplacedItems shuffled p =
     filter (\<lambda>item. Str (item_id item) \<notin> set (js_values p)) shuffled"

definition allPlaced :: "DragDropQuizItem list \<Rightarrow> Placements \<Rightarrow> bool" where
  "allPlaced shuffled p = (length (unplacedItems shuffled p) = 0)"

subsection \<open>Event handlers\<close>

definition handleDragStart :: "QuizState \<Rightarrow> string \<Rightarrow> QuizState" where
  "handleDragStart st itemId = st\<lparr>draggedItem := Str itemId\<rparr>"

definition handleDragEnd :: "QuizState \<Rightarrow> QuizState" where
  "handleDragEnd st = st\<lparr>draggedItem := Null\<rparr>"

text \<open>The \<^verbatim>\<open>forEach\<close> of \<^verbatim>\<open>handleDrop\<close> over the keys of the copy: every slot holding the
  dragged item is set to \<^verbatim>\<open>null\<close>.\<close>

definition freeOldSpots :: "Placements \<Rightarrow> jsval \<Rightarrow> Placements" where
  "freeOldSpots p d =
     foldl (\<lambda>newPlacements key.
              if js_get newPlacements key = d then js_set newPlacements key Null
              else newPlacements)
       p (js_keys p)"

text \<open>
  \<^verbatim>\<open>handleDrop\<close>. The three conditions \<^verbatim>\<open>!draggedItem\<close>, \<^verbatim>\<open>if(existingItemInTarget)\<close> and
  \<^verbatim>\<open>if(oldTargetKey)\<close> test truthiness: the last one fails when \<^verbatim>\<open>find\<close> returns
  \<^verbatim>\<open>undefined\<close> and when the key found is the empty string. The early return leaves both
  state variables as they are; otherwise \<^verbatim>\<open>setPlacements(newPlacements)\<close> and
  \<^verbatim>\<open>setDraggedItem(null)\<close> give the next state.
\<close>

definition handleDrop :: "QuizState \<Rightarrow> string \<Rightarrow> QuizState" where
  "handleDrop st targetId =
     (if \<not> truthy (draggedItem st) then st
      else
        let cleared = freeOldSpots (placements st) (draggedItem st);
            existingItemInTarget = js_get cleared targetId;
            placed = js_set cleared targetId (draggedItem st);
            newPlacements =
              (if truthy existingItemInTarget
               then (case List.find (\<lambda>key. js_get (placements st) key = draggedItem st)
                            (js_keys (placements st)) of
                       None \<Rightarrow> placed
                     | Some oldTargetKey \<Rightarrow>
                         if oldTargetKey \<noteq> [] then js_set placed oldTargetKey existingItemInTarget
                         else placed)
               else placed)
        in \<lparr>placements = newPlacements, draggedItem = Null\<rparr>)"

text \<open>\<^verbatim>\<open>handleCheckAnswer\<close> computes \<^verbatim>\<open>isCorrect\<close> and calls \<^verbatim>\<open>onComplete(isCorrect)\<close>; the
  call is the handler's result.\<close>

datatype effect = OnComplete bool

definition isCorrect :: "DragDropQuizNode \<Rightarrow> Placements \<Rightarrow> bool" where
  "isCorrect node p =
     list_all (\<lambda>target. js_get p (target_id target) = Str (correctItemId target)) (targets node)"

definition handleCheckAnswer :: "DragDropQuizNode \<Rightarrow> QuizState \<Rightarrow> effect" where
  "handleCheckAnswer node st = OnComplete (isCorrect node (placements st))"

subsection \<open>The placement operations of the specification, read off the handlers\<close>

text \<open>\<open>place\<close> is the effect of \<^verbatim>\<open>handleDrop\<close> on the placements when \<open>d\<close> is the value of
  \<^verbatim>\<open>draggedItem\<close>; \<open>places\<close> is a sequence of such drops.\<close>

definition place :: "Placements \<Rightarrow> jsval \<Rightarrow> string \<Rightarrow> Placements" where
  "place p d targetId = placements (handleDrop \<lparr>placements = p, draggedItem = d\<rparr> targetId)"

fun places :: "Placements \<Rightarrow> (jsval \<times> string) list \<Rightarrow> Placements" where
  "places p [] = p"
| "places p ((d, targetId) # ops) = places (place p d targetId) ops"

text \<open>The item ids among \<^verbatim>\<open>Object.values(placements)\<close>, in order and with repetitions.\<close>

fun assigned :: "Placements \<Rightarrow> string list" where
  "assigned [] = []"
| "assigned ((k, Str s) # rest) = s # assigned rest"
| "assigned ((k, Null) # rest) = assigned rest"
| "assigned ((k, Undefined) # rest) = assigned rest"
| "assigned ((k, Inherited n) # rest) = assigned rest"

text \<open>\<open>isComplete\<close> follows the specification's words (the component has no such
  function): every target id has a non-null assigned item.\<close>

definition isComplete :: "DragDropQuizNode \<Rightarrow> Placements \<Rightarrow> bool" where
  "isComplete node p =
     list_all (\<lambda>target. case js_get p (target_id target) of Str s \<Rightarrow> True | _ \<Rightarrow> False)
       (targets node)"

subsection \<open>User actions\<close>

text \<open>
  The events the rendered elements accept. An unplaced item and the item found for a
  target (\<^verbatim>\<open>node.items.find(item => item.id === placements[target.id])\<close>) are draggable;
  the pool area drops with the id \<^verbatim>\<open>'unplaced'\<close>, a drop zone with its target's id; the
  submit button is rendered when \<^verbatim>\<open>allPlaced\<close> holds.
\<close>

datatype event = DragStart string | DragEnd | Drop string | CheckAnswer

fun enabled :: "DragDropQuizItem list \<Rightarrow> DragDropQuizNode \<Rightarrow> QuizState \<Rightarrow> event \<Rightarrow> bool" where
  "enabled shuffled node st (DragStart itemId) =
     (itemId \<in> set (map item_id (unplacedItems shuffled (placements st)))
      \<or> list_ex (\<lambda>target.
            case List.find (\<lambda>item. Str (item_id item) = js_get (placements st) (target_id target))
                   (items node) of
              None \<Rightarrow> False
            | Some placedItem \<Rightarrow> item_id placedItem = itemId)
          (targets node))"
| "enabled shuffled node st DragEnd = True"
| "enabled shuffled node st (Drop targetId) =
     (targetId = ''unplaced'' \<or> targetId \<in> set (map target_id (targets node)))"
| "enabled shuffled node st CheckAnswer = allPlaced shuffled (placements st)"

fun fire :: "DragDropQuizNode \<Rightarrow> QuizState \<Rightarrow> event \<Rightarrow> QuizState \<times> effect list" where
  "fire node st (DragStart itemId) = (handleDragStart st itemId, [])"
| "fire node st DragEnd = (handleDragEnd st, [])"
| "fire node st (Drop targetId) = (handleDrop st targetId, [])"
| "fire node st CheckAnswer = (st, [handleCheckAnswer node st])"

text \<open>A sequence of user actions: \<open>None\<close> when one of them is not offered in the state it
  meets, otherwise the final state and the calls of \<^verbatim>\<open>onComplete\<close> in order.\<close>

fun run :: "DragDropQuizItem list \<Rightarrow> DragDropQuizNode \<Rightarrow> QuizState \<Rightarrow> event list
            \<Rightarrow> (QuizState \<times> effect list) option" where
  "run shuffled node st [] = Some (st, [])"
| "run shuffled node st (ev # evs) =
     (if enabled shuffled node st ev
      then (case fire node st ev of
              (st', out) \<Rightarrow>
                (case run shuffled node st' evs of
                   None \<Rightarrow> None
                 | Some (st'', outs) \<Rightarrow> Some (st'', out @ outs)))
      else None)"

subsection \<open>Example nodes\<close>

definition mkItem :: "string \<Rightarrow> DragDropQuizItem" where
  "mkItem i = \<lparr>item_id = i, textKey = i\<rparr>"

definition mkTarget :: "string \<Rightarrow> string \<Rightarrow> DragDropQuizTarget" where
  "mkTarget t c = \<lparr>target_id = t, label = t, correctItemId = c\<rparr>"

text \<open>The node of the specification's example: items a, b, c; targets E, S, G.\<close>

definition esgNode :: DragDropQuizNode where
  "esgNode = \<lparr>items = [mkItem ''a'', mkItem ''b'', mkItem ''c''],
              targets = [mkTarget ''E'' ''a'', mkTarget ''S'' ''b'', mkTarget ''G'' ''c''],
              nextNode = ''next'', incorrectNextNode = ''retry''\<rparr>"

text \<open>A node with one item and two targets.\<close>

definition smallNode :: DragDropQuizNode where
  "smallNode = \<lparr>items = [mkItem ''a''],
                targets = [mkTarget ''E'' ''a'', mkTarget ''S'' ''a''],
                nextNode = ''next'', incorrectNextNode = ''retry''\<rparr>"

text \<open>A node one of whose targets is named \<^verbatim>\<open>__proto__\<close>.\<close>

definition protoNode :: DragDropQuizNode where
  "protoNode = \<lparr>items = [mkItem ''a'', mkItem ''b''],
                targets = [mkTarget ''__proto__'' ''a'', mkTarget ''E'' ''b''],
                nextNode = ''next'', incorrectNextNode = ''retry''\<rparr>"

text \<open>Three randomness sources: one always below a half, one always above, and one
  that makes every comparator call return zero.\<close>

definition rndLow :: random_source where
  "rndLow n = 1 / 4"

definition rndHalf :: random_source where
  "rndHalf n = 1 / 2"

definition rndHigh :: random_source where
  "rndHigh n = 3 / 4"

subsection \<open>Auxiliary predicates\<close>

text \<open>No item id is the value of two properties.\<close>

definition single_spot :: "Placements \<Rightarrow> bool" where
  "single_spot p = (\<forall>k k' s. (k, Str s) \<in> set p \<and> (k', Str s) \<in> set p \<longrightarrow> k = k')"

section \<open>Properties of the object operations\<close>

lemma set_js_create: "set (js_create p k v) = insert (k, v) (set p)"
  by (induction p) (auto split: if_splits)

lemma map_of_js_create:
  "k \<notin> fst ` set p \<Longrightarrow> map_of (js_create p k v) = (map_of p)(k \<mapsto> v)"
  by (induction p) (auto simp: fun_upd_twist)

lemma js_keys_create: "set (js_keys (js_create p k v)) = insert k (set (js_keys p))"
  by (simp add: js_keys_def set_js_create)

lemma distinct_js_create:
  "k \<notin> set (js_keys p) \<Longrightarrow> distinct (js_keys p) \<Longrightarrow> distinct (js_keys (js_create p k v))"
  by (induction p) (auto simp: js_keys_def set_js_create)

lemma map_of_update_in_place:
  "map_of (map (\<lambda>(a, b). if a = k then (a, v) else (a, b)) p) x =
     (if x = k \<and> k \<in> fst ` set p then Some v else map_of p x)"
proof (induction p)
  case Nil
  show ?case by simp
next
  case (Cons e p)
  obtain a b where e: "e = (a, b)" by (cases e)
  show ?case using Cons by (cases "a = k") (force simp: e)+
qed

lemma js_set_cases:
  "js_set p k v =
     (if k \<in> set (js_keys p)
      then map (\<lambda>(a, b). if a = k then (a, v) else (a, b)) p
      else if k = ''__proto__'' then p else js_create p k v)"
  by (simp add: js_set_def js_assign_def)

lemma js_get_set:
  "js_get (js_set p k v) x =
     (if x = k \<and> (k \<in> set (js_keys p) \<or> k \<noteq> ''__proto__'') then v else js_get p x)"
proof (cases "k \<in> set (js_keys p)")
  case True
  then show ?thesis
    by (simp add: js_get_def js_set_cases js_keys_def map_of_update_in_place)
next
  case False
  then show ?thesis
    by (simp add: js_get_def js_set_cases js_keys_def map_of_js_create)
qed

lemma js_keys_set_mem: "k \<in> set (js_keys p) \<Longrightarrow> js_keys (js_set p k v) = js_keys p"
  by (simp add: js_set_cases js_keys_def case_prod_beta comp_def if_distrib cong: if_cong)

lemma js_set_proto: "''__proto__'' \<notin> set (js_keys p) \<Longrightarrow> js_set p ''__proto__'' v = p"
  by (simp add: js_set_cases)

lemma set_js_keys_set:
  "set (js_keys (js_set p k v)) =
     (if k = ''__proto__'' \<and> k \<notin> set (js_keys p) then set (js_keys p)
      else insert k (set (js_keys p)))"
proof (cases "k \<in> set (js_keys p)")
  case True
  then show ?thesis by (auto simp: js_keys_set_mem)
next
  case False
  then show ?thesis by (simp add: js_set_cases js_keys_create)
qed

lemma js_keys_set_mono:
  "x \<in> set (js_keys p) \<Longrightarrow> x \<in> set (js_keys (js_set p k v))"
  by (simp add: set_js_keys_set)

lemma distinct_js_keys_set: "distinct (js_keys p) \<Longrightarrow> distinct (js_keys (js_set p k v))"
proof (cases "k \<in> set (js_keys p)")
  case True
  then show "distinct (js_keys p) \<Longrightarrow> ?thesis" by (simp add: js_keys_set_mem)
next
  case False
  then show "distinct (js_keys p) \<Longrightarrow> ?thesis" by (simp add: js_set_cases distinct_js_create)
qed

lemma js_get_not_own:
  "k \<notin> set (js_keys p) \<Longrightarrow>
   js_get p k = (if k \<in> set prototype_names then Inherited k else Undefined)"
  using map_of_eq_None_iff[of p k] by (simp add: js_get_def js_keys_def)

lemma js_get_Str_own: "js_get p k = Str s \<Longrightarrow> k \<in> set (js_keys p)"
  using js_get_not_own[of k p] by (cases "k \<in> set (js_keys p)") (simp_all split: if_splits)

lemma js_get_Null_own: "js_get p k = Null \<Longrightarrow> k \<in> set (js_keys p)"
  using js_get_not_own[of k p] by (cases "k \<in> set (js_keys p)") (simp_all split: if_splits)

lemma js_get_proto_not_own:
  "''__proto__'' \<notin> set (js_keys p) \<Longrightarrow> js_get p ''__proto__'' = Inherited ''__proto__''"
  by (simp add: js_get_not_own prototype_names_def)

lemma js_get_mem: "distinct (js_keys p) \<Longrightarrow> (k, v) \<in> set p \<Longrightarrow> js_get p k = v"
  by (simp add: js_get_def js_keys_def)

section \<open>Properties of the drop handler\<close>

lemma freeOldSpots_loop:
  "set ks \<subseteq> set (js_keys p) \<Longrightarrow>
   js_keys (foldl (\<lambda>np key. if js_get np key = d then js_set np key Null else np) p ks) = js_keys p
   \<and> js_get (foldl (\<lambda>np key. if js_get np key = d then js_set np key Null else np) p ks) x =
       (if x \<in> set ks \<and> js_get p x = d then Null else js_get p x)"
proof (induction ks arbitrary: p)
  case Nil
  show ?case by simp
next
  case (Cons k ks)
  let ?q = "if js_get p k = d then js_set p k Null else p"
  have k: "k \<in> set (js_keys p)" using Cons.prems by simp
  have keys: "js_keys ?q = js_keys p"
    using k by (simp add: js_keys_set_mem)
  have sub: "set ks \<subseteq> set (js_keys ?q)"
    using Cons.prems keys by simp
  have get: "js_get ?q x = (if x = k \<and> js_get p k = d then Null else js_get p x)"
    using k by (simp add: js_get_set)
  show ?case
    using Cons.IH[OF sub] keys get by auto
qed

lemma js_keys_freeOldSpots: "js_keys (freeOldSpots p d) = js_keys p"
  using freeOldSpots_loop[of "js_keys p" p d] by (simp add: freeOldSpots_def)

lemma js_get_freeOldSpots:
  "js_get (freeOldSpots p d) x =
     (if x \<in> set (js_keys p) \<and> js_get p x = d then Null else js_get p x)"
  using freeOldSpots_loop[of "js_keys p" p d x] by (simp add: freeOldSpots_def)

lemma find_key_Some:
  "List.find (\<lambda>key. js_get p key = d) (js_keys p) = Some k \<Longrightarrow> k \<in> set (js_keys p) \<and> js_get p k = d"
  by (auto simp: find_Some_iff)

lemma find_key_None:
  "List.find (\<lambda>key. js_get p key = Str ds) (js_keys p) = None \<longleftrightarrow> (\<forall>k. js_get p k \<noteq> Str ds)"
  using js_get_Str_own[of p _ ds] by (auto simp: find_None_iff)

lemma place_falsy: "\<not> truthy d \<Longrightarrow> place p d t = p"
  by (simp add: place_def handleDrop_def)

lemma js_keys_place:
  "t \<in> set (js_keys p) \<or> t = ''__proto__'' \<Longrightarrow> js_keys (place p d t) = js_keys p"
proof -
  assume t: "t \<in> set (js_keys p) \<or> t = ''__proto__''"
  have placed: "js_keys (js_set (freeOldSpots p d) t d) = js_keys p"
  proof (cases "t \<in> set (js_keys p)")
    case True
    then show ?thesis by (simp add: js_keys_set_mem js_keys_freeOldSpots)
  next
    case False
    then show ?thesis using t by (simp add: js_set_proto js_keys_freeOldSpots)
  qed
  have swap: "\<And>k v. k \<in> set (js_keys p) \<Longrightarrow>
      js_keys (js_set (js_set (freeOldSpots p d) t d) k v) = js_keys p"
    using placed by (simp add: js_keys_set_mem)
  show ?thesis
    using placed swap
    by (auto simp: place_def handleDrop_def Let_def split: option.splits dest!: find_key_Some)
qed

lemma distinct_js_keys_place:
  "distinct (js_keys p) \<Longrightarrow> distinct (js_keys (place p d t))"
  by (auto simp: place_def handleDrop_def Let_def distinct_js_keys_set js_keys_freeOldSpots
      split: option.splits)

text \<open>What a property holds after a drop: the displaced value in the slot the dragged
  item left, the dragged item in the target (unless the assignment ran the setter of
  \<^verbatim>\<open>__proto__\<close>), \<^verbatim>\<open>null\<close> in the other slots that held the dragged item.\<close>

lemma js_get_place:
  assumes "truthy d"
  shows "js_get (place p d t) x =
     (if truthy (js_get p t) \<and> \<not> (t \<in> set (js_keys p) \<and> js_get p t = d)
         \<and> (\<exists>k. List.find (\<lambda>key. js_get p key = d) (js_keys p) = Some k \<and> k \<noteq> [] \<and> x = k)
      then js_get p t
      else if x = t \<and> (t \<in> set (js_keys p) \<or> t \<noteq> ''__proto__'') then d
      else if x \<in> set (js_keys p) \<and> js_get p x = d then Null else js_get p x)"
proof -
  let ?c = "freeOldSpots p d"
  have ck: "js_keys ?c = js_keys p" by (rule js_keys_freeOldSpots)
  have d: "d \<noteq> Null" using assms by auto
  show ?thesis
  proof (cases "List.find (\<lambda>key. js_get p key = d) (js_keys p)")
    case None
    then show ?thesis
      using assms d
      by (auto simp: place_def handleDrop_def Let_def js_get_set js_get_freeOldSpots ck)
  next
    case (Some k)
    then have k: "k \<in> set (js_keys p)" "js_get p k = d" by (auto dest: find_key_Some)
    have kp: "k \<in> set (js_keys (js_set ?c t d))"
      using k(1) ck by (simp add: js_keys_set_mono)
    show ?thesis
      using assms d Some k kp
      by (auto simp: place_def handleDrop_def Let_def js_get_set js_get_freeOldSpots ck)
  qed
qed

text \<open>The same for a dragged string, which only own properties can hold.\<close>

lemma js_get_place_Str:
  assumes "ds \<noteq> []"
  shows "js_get (place p (Str ds) t) x =
     (if truthy (js_get p t) \<and> js_get p t \<noteq> Str ds
         \<and> (\<exists>k. List.find (\<lambda>key. js_get p key = Str ds) (js_keys p) = Some k \<and> k \<noteq> [] \<and> x = k)
      then js_get p t
      else if x = t \<and> (t \<in> set (js_keys p) \<or> t \<noteq> ''__proto__'') then Str ds
      else if js_get p x = Str ds then Null else js_get p x)"
proof -
  have tr: "truthy (Str ds)" using assms by simp
  have own: "\<And>y. js_get p y = Str ds \<Longrightarrow> y \<in> set (js_keys p)" by (rule js_get_Str_own)
  show ?thesis
    unfolding js_get_place[OF tr] using own by auto
qed

section \<open>The assigned item ids\<close>

lemma set_assigned: "set (assigned p) = {s. \<exists>k. (k, Str s) \<in> set p}"
  by (induction p rule: assigned.induct) auto

lemma length_assigned_le: "length (assigned p) \<le> length p"
  by (induction p rule: assigned.induct) auto

lemma length_assigned_full:
  "length (assigned p) = length p \<Longrightarrow> (k, v) \<in> set p \<Longrightarrow> \<exists>s. v = Str s"
proof (induction p rule: assigned.induct)
  case 1
  then show ?case by simp
next
  case (2 k' s rest)
  then show ?case by auto
next
  case (3 k' rest)
  then show ?case using length_assigned_le[of rest] by simp
next
  case (4 k' rest)
  then show ?case using length_assigned_le[of rest] by simp
next
  case (5 k' n rest)
  then show ?case using length_assigned_le[of rest] by simp
qed

lemma assigned_all_Str:
  "\<forall>e \<in> set p. \<exists>s. snd e = Str s \<Longrightarrow> length (assigned p) = length p"
  by (induction p rule: assigned.induct) auto

lemma js_get_Str_iff:
  assumes "distinct (js_keys p)"
  shows "js_get p k = Str s \<longleftrightarrow> (k, Str s) \<in> set p"
proof -
  have "map_of p k = Some (Str s) \<longleftrightarrow> (k, Str s) \<in> set p"
    using assms map_of_eq_Some_iff[of p k "Str s"] by (simp add: js_keys_def)
  moreover have "js_get p k = Str s \<longleftrightarrow> map_of p k = Some (Str s)"
    by (simp add: js_get_def split: option.splits)
  ultimately show ?thesis by simp
qed

lemma single_spot_Cons_Str:
  assumes fresh: "k0 \<notin> fst ` set rest"
  shows "single_spot ((k0, Str s0) # rest) \<longleftrightarrow> s0 \<notin> set (assigned rest) \<and> single_spot rest"
proof
  assume ss: "single_spot ((k0, Str s0) # rest)"
  have "s0 \<notin> set (assigned rest)"
  proof
    assume "s0 \<in> set (assigned rest)"
    then obtain k where k: "(k, Str s0) \<in> set rest" by (auto simp: set_assigned)
    have "(k, Str s0) \<in> set ((k0, Str s0) # rest)" "(k0, Str s0) \<in> set ((k0, Str s0) # rest)"
      using k by simp_all
    then have "k = k0" using ss unfolding single_spot_def by blast
    then show False using k fresh by force
  qed
  moreover have "single_spot rest"
    unfolding single_spot_def
  proof (intro allI impI, elim conjE)
    fix k k' s
    assume "(k, Str s) \<in> set rest" "(k', Str s) \<in> set rest"
    then have "(k, Str s) \<in> set ((k0, Str s0) # rest)" "(k', Str s) \<in> set ((k0, Str s0) # rest)"
      by simp_all
    then show "k = k'" using ss unfolding single_spot_def by blast
  qed
  ultimately show "s0 \<notin> set (assigned rest) \<and> single_spot rest" by simp
next
  assume a: "s0 \<notin> set (assigned rest) \<and> single_spot rest"
  then have no: "\<And>k. (k, Str s0) \<notin> set rest" by (auto simp: set_assigned)
  show "single_spot ((k0, Str s0) # rest)"
    unfolding single_spot_def
  proof (intro allI impI, elim conjE)
    fix k k' s
    assume m: "(k, Str s) \<in> set ((k0, Str s0) # rest)" "(k', Str s) \<in> set ((k0, Str s0) # rest)"
    show "k = k'"
    proof (cases "s = s0")
      case True
      then show ?thesis using m no by simp
    next
      case False
      then have "(k, Str s) \<in> set rest" "(k', Str s) \<in> set rest" using m by simp_all
      then show ?thesis using a unfolding single_spot_def by blast
    qed
  qed
qed

lemma single_spot_Cons_other:
  assumes "\<forall>s. v \<noteq> Str s"
  shows "single_spot ((k0, v) # rest) \<longleftrightarrow> single_spot rest"
proof -
  have "\<And>k s. (k, Str s) \<in> set ((k0, v) # rest) \<longleftrightarrow> (k, Str s) \<in> set rest"
    using assms by auto
  then show ?thesis unfolding single_spot_def by simp
qed

lemma distinct_assigned_single_spot:
  "distinct (js_keys p) \<Longrightarrow> distinct (assigned p) \<longleftrightarrow> single_spot p"
proof (induction p rule: assigned.induct)
  case 1
  show ?case by (simp add: single_spot_def)
next
  case (2 k' s rest)
  then show ?case by (simp add: single_spot_Cons_Str js_keys_def)
next
  case (3 k' rest)
  then show ?case by (simp add: single_spot_Cons_other js_keys_def)
next
  case (4 k' rest)
  then show ?case by (simp add: single_spot_Cons_other js_keys_def)
next
  case (5 k' n rest)
  then show ?case by (simp add: single_spot_Cons_other js_keys_def)
qed

lemma distinct_assigned_iff:
  "distinct (js_keys p) \<Longrightarrow>
   distinct (assigned p) \<longleftrightarrow> (\<forall>k k' s. js_get p k = Str s \<and> js_get p k' = Str s \<longrightarrow> k = k')"
  by (simp add: distinct_assigned_single_spot single_spot_def js_get_Str_iff)

section \<open>Invariants of dropping\<close>

lemma place_keeps_injective:
  assumes inj: "\<forall>x y s. js_get p x = Str s \<and> js_get p y = Str s \<longrightarrow> x = y"
  shows "\<forall>x y s. js_get (place p d t) x = Str s \<and> js_get (place p d t) y = Str s \<longrightarrow> x = y"
proof (cases "truthy d")
  case False
  then show ?thesis using inj by (simp add: place_falsy)
next
  case True
  show ?thesis
  proof (intro allI impI, elim conjE)
    fix x y s
    assume x: "js_get (place p d t) x = Str s" and y: "js_get (place p d t) y = Str s"
    show "x = y"
    proof (cases "d = Str s")
      case ds: True
      then have s: "s \<noteq> []" using True by simp
      have "x = t" using x ds by (auto simp: js_get_place_Str[OF s] split: if_splits)
      moreover have "y = t" using y ds by (auto simp: js_get_place_Str[OF s] split: if_splits)
      ultimately show ?thesis by simp
    next
      case ds: False
      have cx: "(js_get p t = Str s
                  \<and> List.find (\<lambda>key. js_get p key = d) (js_keys p) = Some x)
                \<or> (x \<noteq> t \<and> js_get p x = Str s)"
        using x ds js_get_Str_own[of p t s]
        unfolding js_get_place[OF True] by (auto split: if_splits)
      have cy: "(js_get p t = Str s
                  \<and> List.find (\<lambda>key. js_get p key = d) (js_keys p) = Some y)
                \<or> (y \<noteq> t \<and> js_get p y = Str s)"
        using y ds js_get_Str_own[of p t s]
        unfolding js_get_place[OF True] by (auto split: if_splits)
      show ?thesis using cx cy inj by (metis option.inject)
    qed
  qed
qed

lemma distinct_assigned_place:
  assumes "distinct (js_keys p)" "distinct (assigned p)"
  shows "distinct (assigned (place p d t))"
proof -
  have k: "distinct (js_keys (place p d t))" using assms(1) by (rule distinct_js_keys_place)
  have "\<forall>x y s. js_get p x = Str s \<and> js_get p y = Str s \<longrightarrow> x = y"
    using assms by (simp add: distinct_assigned_iff)
  then have "\<forall>x y s. js_get (place p d t) x = Str s \<and> js_get (place p d t) y = Str s \<longrightarrow> x = y"
    by (rule place_keeps_injective)
  then show ?thesis using k by (simp add: distinct_assigned_iff)
qed

text \<open>One assignment of the initialisation, and the whole \<^verbatim>\<open>reduce\<close>.\<close>

lemma js_keys_js_assign:
  "set (js_keys (fst (js_assign inh p k v))) =
     (if k \<notin> set (js_keys p) \<and> inh \<and> k = ''__proto__'' then set (js_keys p)
      else insert k (set (js_keys p)))"
proof (cases "k \<in> set (js_keys p)")
  case True
  have "js_keys (map (\<lambda>(a, b). if a = k then (a, v) else (a, b)) p) = js_keys p"
    by (simp add: js_keys_def case_prod_beta comp_def if_distrib cong: if_cong)
  then show ?thesis using True by (auto simp: js_assign_def)
next
  case False
  then show ?thesis by (simp add: js_assign_def js_keys_create)
qed

lemma distinct_js_assign:
  "distinct (js_keys p) \<Longrightarrow> distinct (js_keys (fst (js_assign inh p k v)))"
proof (cases "k \<in> set (js_keys p)")
  case True
  have "js_keys (map (\<lambda>(a, b). if a = k then (a, v) else (a, b)) p) = js_keys p"
    by (simp add: js_keys_def case_prod_beta comp_def if_distrib cong: if_cong)
  then show "distinct (js_keys p) \<Longrightarrow> ?thesis" using True by (simp add: js_assign_def)
next
  case False
  then show "distinct (js_keys p) \<Longrightarrow> ?thesis" by (simp add: js_assign_def distinct_js_create)
qed

lemma js_values_js_assign:
  "set (js_values (fst (js_assign inh p k v))) \<subseteq> insert v (set (js_values p))"
  by (auto simp: js_assign_def js_values_def set_js_create split: if_splits)

lemma snd_js_assign:
  "snd (js_assign inh p k v) =
     (if k \<notin> set (js_keys p) \<and> inh \<and> k = ''__proto__'' then v \<noteq> Null else inh)"
  by (auto simp: js_assign_def)

lemma initStep_loop_keys_upper:
  "set (js_keys (fst (foldl initStep acc ts))) \<subseteq> set (js_keys (fst acc)) \<union> target_id ` set ts"
proof (induction ts arbitrary: acc)
  case Nil
  show ?case by simp
next
  case (Cons t ts)
  have "set (js_keys (fst (initStep acc t))) \<subseteq> insert (target_id t) (set (js_keys (fst acc)))"
    by (auto simp: initStep_def js_keys_js_assign split: if_splits)
  then show ?case using Cons.IH[of "initStep acc t"] by auto
qed

lemma initStep_loop_keys_lower:
  "set (js_keys (fst acc)) \<union> (target_id ` set ts - {''__proto__''})
     \<subseteq> set (js_keys (fst (foldl initStep acc ts)))"
proof (induction ts arbitrary: acc)
  case Nil
  show ?case by simp
next
  case (Cons t ts)
  have "set (js_keys (fst acc)) \<union> ({target_id t} - {''__proto__''})
          \<subseteq> set (js_keys (fst (initStep acc t)))"
    by (auto simp: initStep_def js_keys_js_assign split: if_splits)
  then show ?case using Cons.IH[of "initStep acc t"] by auto
qed

lemma initStep_loop_distinct:
  "distinct (js_keys (fst acc)) \<Longrightarrow> distinct (js_keys (fst (foldl initStep acc ts)))"
proof (induction ts arbitrary: acc)
  case Nil
  then show ?case by simp
next
  case (Cons t ts)
  have "distinct (js_keys (fst (initStep acc t)))"
    using Cons.prems by (simp add: initStep_def distinct_js_assign)
  then show ?case using Cons.IH[of "initStep acc t"] by simp
qed

lemma initStep_loop_values:
  "set (js_values (fst acc)) \<subseteq> {Null} \<Longrightarrow>
   set (js_values (fst (foldl initStep acc ts))) \<subseteq> {Null}"
proof (induction ts arbitrary: acc)
  case Nil
  then show ?case by simp
next
  case (Cons t ts)
  have "set (js_values (fst (initStep acc t))) \<subseteq> {Null}"
    using js_values_js_assign[of "snd acc" "fst acc" "target_id t" Null] Cons.prems
    by (auto simp: initStep_def)
  then show ?case using Cons.IH[of "initStep acc t"] by simp
qed

text \<open>With pairwise different target ids the name \<^verbatim>\<open>__proto__\<close> never becomes a key.\<close>

lemma initStep_loop_proto:
  "''__proto__'' \<notin> set (js_keys (fst acc)) \<Longrightarrow> distinct (map target_id ts) \<Longrightarrow>
   snd acc \<or> ''__proto__'' \<notin> target_id ` set ts \<Longrightarrow>
   ''__proto__'' \<notin> set (js_keys (fst (foldl initStep acc ts)))"
proof (induction ts arbitrary: acc)
  case Nil
  then show ?case by simp
next
  case (Cons t ts)
  have a: "''__proto__'' \<notin> set (js_keys (fst (initStep acc t)))"
    using Cons.prems(1,3) by (auto simp: initStep_def js_keys_js_assign split: if_splits)
  have b: "distinct (map target_id ts)" using Cons.prems(2) by simp
  have c: "snd (initStep acc t) \<or> ''__proto__'' \<notin> target_id ` set ts"
  proof (cases "target_id t = ''__proto__''")
    case True
    then show ?thesis using Cons.prems(2) by auto
  next
    case False
    then show ?thesis using Cons.prems(3) by (auto simp: initStep_def snd_js_assign)
  qed
  show ?case using Cons.IH[OF a b c] by simp
qed

lemma js_keys_initialPlacements_upper:
  "set (js_keys (initialPlacements node)) \<subseteq> target_id ` set (targets node)"
  using initStep_loop_keys_upper[of "([], True)" "targets node"]
  by (simp add: initialPlacements_def js_keys_def)

lemma js_keys_initialPlacements_lower:
  "target_id ` set (targets node) - {''__proto__''} \<subseteq> set (js_keys (initialPlacements node))"
  using initStep_loop_keys_lower[of "([], True)" "targets node"]
  by (simp add: initialPlacements_def)

lemma set_js_keys_initialPlacements:
  "''__proto__'' \<notin> target_id ` set (targets node) \<Longrightarrow>
   set (js_keys (initialPlacements node)) = target_id ` set (targets node)"
  using js_keys_initialPlacements_upper[of node] js_keys_initialPlacements_lower[of node]
  by auto

lemma set_js_keys_initialPlacements_distinct:
  "distinct (map target_id (targets node)) \<Longrightarrow>
   set (js_keys (initialPlacements node)) = target_id ` set (targets node) - {''__proto__''}"
proof -
  assume "distinct (map target_id (targets node))"
  then have "''__proto__'' \<notin> set (js_keys (initialPlacements node))"
    unfolding initialPlacements_def
    by (intro initStep_loop_proto) (simp_all add: js_keys_def)
  then show ?thesis
    using js_keys_initialPlacements_upper[of node] js_keys_initialPlacements_lower[of node]
    by auto
qed

lemma distinct_js_keys_initialPlacements: "distinct (js_keys (initialPlacements node))"
  unfolding initialPlacements_def
  by (rule initStep_loop_distinct) (simp add: js_keys_def)

lemma js_values_initialPlacements: "set (js_values (initialPlacements node)) \<subseteq> {Null}"
  unfolding initialPlacements_def
  by (rule initStep_loop_values) (simp add: js_values_def)

lemma assigned_values: "set (assigned p) = {s. Str s \<in> set (js_values p)}"
  by (force simp: set_assigned js_values_def)

lemma assigned_initialPlacements: "assigned (initialPlacements node) = []"
proof -
  have "set (assigned (initialPlacements node)) = {}"
    using js_values_initialPlacements[of node] by (auto simp: assigned_values)
  then show ?thesis by simp
qed

lemma places_invariant:
  "distinct (js_keys p) \<Longrightarrow> distinct (assigned p) \<Longrightarrow>
   distinct (js_keys (places p ops)) \<and> distinct (assigned (places p ops))"
proof (induction ops arbitrary: p)
  case Nil
  then show ?case by simp
next
  case (Cons op ops)
  obtain d t where op: "op = (d, t)" by (cases op)
  show ?case
    using Cons.IH[of "place p d t"] Cons.prems
    by (simp add: op distinct_js_keys_place distinct_assigned_place)
qed

section \<open>The shuffle and the completeness count\<close>

lemma mset_sort_insert: "mset (fst (sort_insert rnd n x ys)) = add_mset x (mset ys)"
proof (induction ys arbitrary: n)
  case Nil
  show ?case by simp
next
  case (Cons y ys)
  obtain r m where s: "sort_insert rnd (Suc n) x ys = (r, m)"
    by (cases "sort_insert rnd (Suc n) x ys")
  have "mset r = add_mset x (mset ys)" using Cons.IH[of "Suc n"] s by simp
  then show ?case using s by simp
qed

lemma mset_sort_loop: "mset (sort_loop rnd n acc xs) = mset acc + mset xs"
proof (induction xs arbitrary: n acc)
  case Nil
  show ?case by simp
next
  case (Cons x xs)
  obtain acc' n' where s: "sort_insert rnd n x acc = (acc', n')" by (cases "sort_insert rnd n x acc")
  have "mset acc' = add_mset x (mset acc)" using mset_sort_insert[of rnd n x acc] s by simp
  then show ?case using Cons.IH[of n' acc'] s by simp
qed

lemma mset_array_sort: "mset (array_sort rnd xs) = mset xs"
  by (simp add: array_sort_def mset_sort_loop)

lemma mset_shuffledItems: "mset (shuffledItems rnd node) = mset (items node)"
  by (simp add: shuffledItems_def mset_array_sort)

lemma set_shuffledItems: "set (shuffledItems rnd node) = set (items node)"
  using mset_shuffledItems[of rnd node] by (metis set_mset_mset)

lemma length_shuffledItems: "length (shuffledItems rnd node) = length (items node)"
  using mset_shuffledItems[of rnd node] by (metis size_mset)

text \<open>When every comparator call returns zero nothing is exchanged.\<close>

lemma sort_insert_keep:
  "\<forall>n. rnd n = 1 / 2 \<Longrightarrow> fst (sort_insert rnd n x ys) = x # ys"
proof (cases ys)
  case Nil
  then show ?thesis by simp
next
  case (Cons y rest)
  assume "\<forall>n. rnd n = 1 / 2"
  then have "\<not> comparefn rnd n > 0" by (simp add: comparefn_def)
  then show ?thesis using Cons by simp
qed

lemma sort_loop_keep:
  "\<forall>n. rnd n = 1 / 2 \<Longrightarrow> sort_loop rnd n acc xs = rev acc @ xs"
proof (induction xs arbitrary: n acc)
  case Nil
  show ?case by simp
next
  case (Cons x xs)
  obtain acc' n' where s: "sort_insert rnd n x acc = (acc', n')" by (cases "sort_insert rnd n x acc")
  have "acc' = x # acc" using sort_insert_keep[OF Cons.prems, of n x acc] s by simp
  then show ?case using Cons.IH[OF Cons.prems, of n' acc'] s by simp
qed

lemma shuffledItems_keep: "\<forall>n. rnd n = 1 / 2 \<Longrightarrow> shuffledItems rnd node = items node"
  by (simp add: shuffledItems_def array_sort_def sort_loop_keep)

lemma isComplete_iff:
  "isComplete node p \<longleftrightarrow> (\<forall>t \<in> set (targets node). \<exists>s. js_get p (target_id t) = Str s)"
proof -
  have "\<And>v. (case v of Str s \<Rightarrow> True | _ \<Rightarrow> False) \<longleftrightarrow> (\<exists>s. v = Str s)"
    by (simp split: jsval.splits)
  then show ?thesis by (simp add: isComplete_def list_all_iff)
qed

lemma unplacedItems_Nil_iff:
  "unplacedItems shuffled p = [] \<longleftrightarrow> (\<forall>item \<in> set shuffled. item_id item \<in> set (assigned p))"
  by (auto simp: unplacedItems_def filter_empty_conv assigned_values)

lemma length_js_keys: "length (js_keys p) = length p"
  by (simp add: js_keys_def)

text \<open>
  The count behind the agreement of \<^verbatim>\<open>allPlaced\<close> and completeness. The keys are the
  target ids, without \<^verbatim>\<open>__proto__\<close>, which is never an own key; a node with a target of
  that name is never complete and never has all its items placed.
\<close>

lemma keys_are_targets:
  assumes keys: "distinct (js_keys p)"
        "set (js_keys p) = target_id ` set (targets node) - {''__proto__''}"
      and tdist: "distinct (map target_id (targets node))"
      and big: "length (targets node) \<le> length p"
  shows "set (js_keys p) = target_id ` set (targets node)"
proof (cases "''__proto__'' \<in> target_id ` set (targets node)")
  case False
  then have "target_id ` set (targets node) - {''__proto__''} = target_id ` set (targets node)"
    by simp
  then show ?thesis using keys(2) by simp
next
  case True
  have "card (target_id ` set (targets node) - {''__proto__''})
          < card (target_id ` set (targets node))"
    using True by (intro card_Diff1_less) simp_all
  moreover have "card (target_id ` set (targets node)) = length (targets node)"
    using tdist distinct_card[of "map target_id (targets node)"] by simp
  moreover have "card (set (js_keys p)) = length p"
    using keys(1) distinct_card[of "js_keys p"] by (simp add: length_js_keys)
  ultimately have False using keys(2) big by simp
  then show ?thesis ..
qed

lemma length_le_targets:
  assumes keys: "distinct (js_keys p)"
        "set (js_keys p) = target_id ` set (targets node) - {''__proto__''}"
  shows "length p \<le> length (targets node)"
proof -
  have "card (target_id ` set (targets node) - {''__proto__''})
          \<le> card (target_id ` set (targets node))"
    by (intro card_mono) auto
  moreover have "card (target_id ` set (targets node)) \<le> length (targets node)"
    using card_length[of "map target_id (targets node)"] by simp
  moreover have "card (set (js_keys p)) = length p"
    using keys(1) distinct_card[of "js_keys p"] by (simp add: length_js_keys)
  ultimately show ?thesis using keys(2) by simp
qed

lemma all_placed_imp_complete:
  assumes keys: "distinct (js_keys p)"
        "set (js_keys p) = target_id ` set (targets node) - {''__proto__''}"
      and tdist: "distinct (map target_id (targets node))"
      and idist: "distinct (map item_id (items node))"
      and len: "length (items node) = length (targets node)"
      and vals: "distinct (assigned p)"
      and sh: "set shuffled = set (items node)"
      and un: "unplacedItems shuffled p = []"
  shows "isComplete node p"
proof -
  have le: "length p \<le> length (targets node)" using keys by (rule length_le_targets)
  have "item_id ` set (items node) \<subseteq> set (assigned p)"
    using un sh by (auto simp: unplacedItems_Nil_iff)
  then have "card (item_id ` set (items node)) \<le> card (set (assigned p))"
    by (simp add: card_mono)
  moreover have "card (item_id ` set (items node)) = length (items node)"
    using idist distinct_card[of "map item_id (items node)"] by simp
  moreover have "card (set (assigned p)) = length (assigned p)"
    using vals by (simp add: distinct_card)
  ultimately have eq: "length (assigned p) = length p" and big: "length (targets node) \<le> length p"
    using length_assigned_le[of p] le len by simp_all
  have all: "set (js_keys p) = target_id ` set (targets node)"
    using keys tdist big by (rule keys_are_targets)
  have full: "\<And>k v. (k, v) \<in> set p \<Longrightarrow> \<exists>s. v = Str s"
    using eq by (rule length_assigned_full)
  show ?thesis
    unfolding isComplete_iff
  proof
    fix t assume "t \<in> set (targets node)"
    then have "target_id t \<in> set (js_keys p)" using all by simp
    then obtain v where v: "(target_id t, v) \<in> set p" by (auto simp: js_keys_def)
    then have "js_get p (target_id t) = v" using keys(1) by (simp add: js_get_mem)
    then show "\<exists>s. js_get p (target_id t) = Str s" using full[OF v] by simp
  qed
qed

lemma complete_imp_all_placed:
  assumes keys: "distinct (js_keys p)"
        "set (js_keys p) = target_id ` set (targets node) - {''__proto__''}"
      and tdist: "distinct (map target_id (targets node))"
      and idist: "distinct (map item_id (items node))"
      and len: "length (items node) = length (targets node)"
      and vals: "distinct (assigned p)" "set (assigned p) \<subseteq> item_id ` set (items node)"
      and sh: "set shuffled = set (items node)"
      and co: "isComplete node p"
  shows "unplacedItems shuffled p = []"
proof -
  have own: "target_id ` set (targets node) \<subseteq> set (js_keys p)"
  proof
    fix k assume "k \<in> target_id ` set (targets node)"
    then obtain t where t: "t \<in> set (targets node)" "k = target_id t" by (rule imageE)
    then obtain s where "js_get p k = Str s" using co unfolding isComplete_iff by blast
    then show "k \<in> set (js_keys p)" by (rule js_get_Str_own)
  qed
  have "''__proto__'' \<notin> set (js_keys p)" using keys(2) by simp
  then have "''__proto__'' \<notin> target_id ` set (targets node)" using own by (rule contra_subsetD[rotated])
  then have all: "set (js_keys p) = target_id ` set (targets node)" using keys(2) by simp
  have n: "length p = length (targets node)"
    using keys(1) all tdist distinct_card[of "js_keys p"]
      distinct_card[of "map target_id (targets node)"]
    by (simp add: length_js_keys)
  have "\<forall>e \<in> set p. \<exists>s. snd e = Str s"
  proof
    fix e assume e: "e \<in> set p"
    obtain k v where kv: "e = (k, v)" by (cases e)
    have "k \<in> set (js_keys p)" using e kv by (force simp: js_keys_def)
    then obtain t where t: "t \<in> set (targets node)" "k = target_id t" using all by auto
    have "js_get p k = v" using e kv keys(1) by (simp add: js_get_mem)
    then show "\<exists>s. snd e = Str s" using co t kv by (auto simp: isComplete_iff)
  qed
  then have "length (assigned p) = length p" by (rule assigned_all_Str)
  then have "card (set (assigned p)) = length (items node)"
    using vals(1) n len by (simp add: distinct_card)
  moreover have "card (item_id ` set (items node)) = length (items node)"
    using idist distinct_card[of "map item_id (items node)"] by simp
  ultimately have "set (assigned p) = item_id ` set (items node)"
    using vals(2) by (simp add: card_subset_eq)
  then show ?thesis using sh by (simp add: unplacedItems_Nil_iff)
qed

section \<open>Evaluation on the example nodes\<close>

lemmas node_eval = esgNode_def smallNode_def protoNode_def mkItem_def mkTarget_def
  rndLow_def rndHigh_def rndHalf_def

lemmas object_eval = js_keys_def js_values_def js_get_def js_set_def js_assign_def
  array_index_def prototype_names_def

lemmas handler_eval = initialState_def initialPlacements_def initStep_def place_def
  handleDrop_def freeOldSpots_def handleDragStart_def handleDragEnd_def handleCheckAnswer_def
  isCorrect_def isComplete_def unplacedItems_def allPlaced_def shuffledItems_def array_sort_def
  comparefn_def Let_def

text \<open>The embedding computes: the initial placements of the example node, and those of
  the node with a target named \<^verbatim>\<open>__proto__\<close>, which gets no key; a drop on that target
  stores nothing and hands \<^verbatim>\<open>Object.prototype\<close> to the slot the item came from.\<close>

lemma init_esg: "initialPlacements esgNode = [(''E'', Null), (''S'', Null), (''G'', Null)]"
  by (simp add: node_eval object_eval handler_eval)

lemma init_proto: "initialPlacements protoNode = [(''E'', Null)]"
  by (simp add: node_eval object_eval handler_eval)

lemma drop_on_proto:
  "place [(''E'', Str ''a'')] (Str ''a'') ''__proto__'' = [(''E'', Inherited ''__proto__'')]"
  by (simp add: object_eval handler_eval)

section \<open>Sequences of user actions\<close>

lemma assigned_iff_get:
  "distinct (js_keys p) \<Longrightarrow> s \<in> set (assigned p) \<longleftrightarrow> (\<exists>k. js_get p k = Str s)"
  by (simp add: set_assigned js_get_Str_iff)

lemma assigned_place_subset:
  assumes "distinct (js_keys p)"
  shows "set (assigned (place p d t)) \<subseteq> set (assigned p) \<union> {s. d = Str s}"
proof (cases "truthy d")
  case False
  then show ?thesis by (simp add: place_falsy)
next
  case True
  have k': "distinct (js_keys (place p d t))" using assms by (rule distinct_js_keys_place)
  show ?thesis
  proof
    fix s assume "s \<in> set (assigned (place p d t))"
    then obtain k where k: "js_get (place p d t) k = Str s"
      using k' by (auto simp: assigned_iff_get)
    have "d = Str s \<or> (\<exists>y. js_get p y = Str s)"
      using k unfolding js_get_place[OF True] by (auto split: if_splits)
    then show "s \<in> set (assigned p) \<union> {s. d = Str s}"
      using assms by (auto simp: assigned_iff_get)
  qed
qed

lemma placements_handleDrop:
  "placements (handleDrop st t) = place (placements st) (draggedItem st) t"
  by (simp add: place_def handleDrop_def Let_def)

lemma draggedItem_handleDrop:
  "draggedItem (handleDrop st t) = (if truthy (draggedItem st) then Null else draggedItem st)"
  by (simp add: handleDrop_def Let_def)

lemma run_invariant:
  assumes "run sh node st evs = Some (st', outs)"
      and "I st"
      and "\<And>s ev. I s \<Longrightarrow> ev \<in> set evs \<Longrightarrow> enabled sh node s ev \<Longrightarrow> I (fst (fire node s ev))"
  shows "I st'"
  using assms
proof (induction evs arbitrary: st outs)
  case Nil
  then show ?case by simp
next
  case (Cons ev evs)
  have en: "enabled sh node st ev" using Cons.prems(1) by (simp split: if_splits)
  obtain s1 o1 where f: "fire node st ev = (s1, o1)" by (cases "fire node st ev")
  obtain o2 where r: "run sh node s1 evs = Some (st', o2)"
    using Cons.prems(1) en f by (auto split: option.splits)
  have "I s1" using Cons.prems(3)[of st ev] Cons.prems(2) en f by simp
  then show ?case using Cons.IH[OF r] Cons.prems(3) by simp
qed

lemma run_append:
  "run sh node st (evs @ evs') =
     (case run sh node st evs of
        None \<Rightarrow> None
      | Some (st', outs) \<Rightarrow>
          (case run sh node st' evs' of
             None \<Rightarrow> None
           | Some (st'', outs') \<Rightarrow> Some (st'', outs @ outs')))"
  by (induction evs arbitrary: st) (auto split: option.splits prod.splits)

lemma find_Some_mem: "List.find P xs = Some x \<Longrightarrow> x \<in> set xs"
  by (auto simp: find_Some_iff)

lemma placed_item_is_item:
  "(case List.find P xs of None \<Rightarrow> False | Some placedItem \<Rightarrow> item_id placedItem = i)
   \<Longrightarrow> i \<in> item_id ` set xs"
  by (cases "List.find P xs") (auto dest: find_Some_mem)

lemma enabled_DragStart_item:
  assumes "enabled sh node st (DragStart i)" "set sh \<subseteq> set (items node)"
  shows "i \<in> item_id ` set (items node)"
proof (cases "i \<in> item_id ` set (unplacedItems sh (placements st))")
  case True
  then show ?thesis using assms(2) by (auto simp: unplacedItems_def)
next
  case False
  then have "list_ex (\<lambda>target.
            case List.find (\<lambda>item. Str (item_id item) = js_get (placements st) (target_id target))
                   (items node) of
              None \<Rightarrow> False
            | Some placedItem \<Rightarrow> item_id placedItem = i)
          (targets node)"
    using assms(1) by simp
  then have "\<exists>t \<in> set (targets node).
    (case List.find (\<lambda>item. Str (item_id item) = js_get (placements st) (target_id t)) (items node) of
       None \<Rightarrow> False | Some placedItem \<Rightarrow> item_id placedItem = i)"
    unfolding list_ex_iff .
  then show ?thesis by (elim bexE) (rule placed_item_is_item)
qed

lemma places_target_invariant:
  assumes "distinct (js_keys p)" "set (js_keys p) = T" "distinct (assigned p)"
      and "set (assigned p) \<subseteq> I"
      and "\<forall>op \<in> set ops. (snd op \<in> T \<or> snd op = ''__proto__'')
             \<and> (fst op = Null \<or> (\<exists>s \<in> I. fst op = Str s))"
  shows "distinct (js_keys (places p ops)) \<and> set (js_keys (places p ops)) = T
         \<and> distinct (assigned (places p ops)) \<and> set (assigned (places p ops)) \<subseteq> I"
  using assms
proof (induction ops arbitrary: p)
  case Nil
  then show ?case by simp
next
  case (Cons op ops)
  obtain d t where op: "op = (d, t)" by (cases op)
  have t: "t \<in> set (js_keys p) \<or> t = ''__proto__''" using Cons.prems(2,5) op by simp
  have d: "d = Null \<or> (\<exists>s \<in> I. d = Str s)" using Cons.prems(5) op by simp
  have k1: "distinct (js_keys (place p d t))" using Cons.prems(1) by (rule distinct_js_keys_place)
  have k2: "set (js_keys (place p d t)) = T" using t Cons.prems(2) by (simp add: js_keys_place)
  have a1: "distinct (assigned (place p d t))"
    using Cons.prems(1,3) by (rule distinct_assigned_place)
  have a2: "set (assigned (place p d t)) \<subseteq> I"
    using assigned_place_subset[OF Cons.prems(1), of d t] Cons.prems(4) d by auto
  have rest: "\<forall>op \<in> set ops. (snd op \<in> T \<or> snd op = ''__proto__'')
             \<and> (fst op = Null \<or> (\<exists>s \<in> I. fst op = Str s))"
    using Cons.prems(5) by simp
  show ?case using Cons.IH[OF k1 k2 a1 a2 rest] by (simp add: op)
qed

section \<open>The claims\<close>

text \<open>
  C1, as the code has it. \<^verbatim>\<open>allPlaced\<close> counts items, completeness counts targets. They
  agree for a node with as many items as targets, pairwise different item ids and
  pairwise different target ids, on every placements object reached from the initial one
  by dropping items of the node (or nothing) on targets of the node: then every target
  holds an item exactly when \<^verbatim>\<open>unplacedItems\<close> is empty, whatever the shuffle.
\<close>

theorem C1_complete_iff_all_placed:
  assumes "length (items node) = length (targets node)"
      and "distinct (map item_id (items node))"
      and "distinct (map target_id (targets node))"
      and "\<forall>op \<in> set ops. snd op \<in> set (map target_id (targets node))
             \<and> (fst op = Null \<or> fst op \<in> set (map (\<lambda>item. Str (item_id item)) (items node)))"
  shows "(isComplete node (places (initialPlacements node) ops)
            \<longleftrightarrow> unplacedItems (shuffledItems rnd node) (places (initialPlacements node) ops) = [])
         \<and> (allPlaced (shuffledItems rnd node) (places (initialPlacements node) ops)
            \<longleftrightarrow> isComplete node (places (initialPlacements node) ops))"
proof -
  let ?p = "places (initialPlacements node) ops"
  let ?T = "target_id ` set (targets node) - {''__proto__''}"
  have ops: "\<forall>op \<in> set ops. (snd op \<in> ?T \<or> snd op = ''__proto__'')
      \<and> (fst op = Null \<or> (\<exists>s \<in> item_id ` set (items node). fst op = Str s))"
    using assms(4) by auto
  have inv: "distinct (js_keys ?p) \<and> set (js_keys ?p) = ?T
         \<and> distinct (assigned ?p) \<and> set (assigned ?p) \<subseteq> item_id ` set (items node)"
    by (rule places_target_invariant[OF _ _ _ _ ops])
       (simp_all add: distinct_js_keys_initialPlacements
          set_js_keys_initialPlacements_distinct[OF assms(3)] assigned_initialPlacements)
  have sh: "set (shuffledItems rnd node) = set (items node)" by (rule set_shuffledItems)
  have a: "isComplete node ?p \<Longrightarrow> unplacedItems (shuffledItems rnd node) ?p = []"
    using inv assms(1,2,3) sh by (intro complete_imp_all_placed) simp_all
  have b: "unplacedItems (shuffledItems rnd node) ?p = [] \<Longrightarrow> isComplete node ?p"
    using inv assms(1,2,3) sh by (intro all_placed_imp_complete[where shuffled = "shuffledItems rnd node"]) simp_all
  show ?thesis using a b by (auto simp: allPlaced_def)
qed

theorem C1_complete_iff_all_placed_witness:
  "length (items esgNode) = length (targets esgNode)
   \<and> distinct (map item_id (items esgNode))
   \<and> distinct (map target_id (targets esgNode))
   \<and> isComplete esgNode
        (places (initialPlacements esgNode)
           [(Str ''a'', ''S''), (Str ''b'', ''E''), (Null, ''E''), (Str ''c'', ''G'')])
   \<and> unplacedItems (shuffledItems rndHigh esgNode)
        (places (initialPlacements esgNode)
           [(Str ''a'', ''S''), (Str ''b'', ''E''), (Null, ''E''), (Str ''c'', ''G'')]) = []"
proof -
  let ?ops = "[(Str ''a'', ''S''), (Str ''b'', ''E''), (Null, ''E''), (Str ''c'', ''G'')]"
  have h1: "length (items esgNode) = length (targets esgNode)" by (simp add: node_eval)
  have h2: "distinct (map item_id (items esgNode))" by (simp add: node_eval)
  have h3: "distinct (map target_id (targets esgNode))" by (simp add: node_eval)
  have h4: "\<forall>op \<in> set ?ops. snd op \<in> set (map target_id (targets esgNode))
             \<and> (fst op = Null \<or> fst op \<in> set (map (\<lambda>item. Str (item_id item)) (items esgNode)))"
    by (simp add: node_eval)
  have c: "isComplete esgNode (places (initialPlacements esgNode) ?ops)"
    by (simp add: node_eval object_eval handler_eval)
  show ?thesis
    using h1 h2 h3 c C1_complete_iff_all_placed[OF h1 h2 h3 h4, of rndHigh] by simp
qed

text \<open>C1 as stated fails: on a node with one item and two targets, after the item is
  dropped on the first target no item is unplaced, and the second target is empty.\<close>

theorem C1_fewer_items_counterexample:
  "unplacedItems (shuffledItems rndLow smallNode)
       (places (initialPlacements smallNode) [(Str ''a'', ''E'')]) = []
   \<and> allPlaced (shuffledItems rndLow smallNode)
       (places (initialPlacements smallNode) [(Str ''a'', ''E'')])
   \<and> \<not> isComplete smallNode (places (initialPlacements smallNode) [(Str ''a'', ''E'')])"
  by (simp add: node_eval object_eval handler_eval)

text \<open>
  C2, as the code has it. \<^verbatim>\<open>handleCheckAnswer\<close> itself rejects nothing: it changes no
  state and calls \<^verbatim>\<open>onComplete(isCorrect)\<close> once. The gate is the rendering: the submit
  button exists only while \<^verbatim>\<open>allPlaced\<close> holds. For a node with as many items as
  targets, pairwise different item ids and pairwise different target ids, and user
  actions whose drops are all on targets of the node, the button is there only when
  every target holds an item: whenever check-answer fires, the placements are complete,
  the state is unchanged, and the one call made is \<^verbatim>\<open>onComplete(isCorrect)\<close>.
\<close>

theorem C2_check_only_when_complete:
  assumes "length (items node) = length (targets node)"
      and "distinct (map item_id (items node))"
      and "distinct (map target_id (targets node))"
      and "\<forall>ev \<in> set evs. \<forall>t. ev = Drop t \<longrightarrow> t \<in> set (map target_id (targets node))"
      and "run (shuffledItems rnd node) node (initialState node) (evs @ [CheckAnswer])
             = Some (st, outs)"
  shows "isComplete node (placements st)
         \<and> allPlaced (shuffledItems rnd node) (placements st)
         \<and> (\<exists>outs'. run (shuffledItems rnd node) node (initialState node) evs = Some (st, outs')
               \<and> outs = outs' @ [OnComplete (isCorrect node (placements st))])"
proof -
  let ?sh = "shuffledItems rnd node"
  have ap: "run ?sh node (initialState node) (evs @ [CheckAnswer]) =
     (case run ?sh node (initialState node) evs of
        None \<Rightarrow> None
      | Some (st', outs) \<Rightarrow>
          (case run ?sh node st' [CheckAnswer] of
             None \<Rightarrow> None
           | Some (st'', outs') \<Rightarrow> Some (st'', outs @ outs')))"
    by (rule run_append)
  obtain st1 o1 where r1: "run ?sh node (initialState node) evs = Some (st1, o1)"
    using assms(5) ap by (cases "run ?sh node (initialState node) evs") auto
  have last: "run ?sh node st1 [CheckAnswer] =
      (if allPlaced ?sh (placements st1) then Some (st1, [handleCheckAnswer node st1]) else None)"
    by simp
  have en: "allPlaced ?sh (placements st1)"
    using assms(5) ap r1 last by (cases "allPlaced ?sh (placements st1)") simp_all
  have eq: "run ?sh node (initialState node) (evs @ [CheckAnswer])
      = Some (st1, o1 @ [OnComplete (isCorrect node (placements st1))])"
    using ap r1 last en by (simp add: handleCheckAnswer_def)
  have "Some (st, outs) = Some (st1, o1 @ [OnComplete (isCorrect node (placements st1))])"
    unfolding assms(5)[symmetric] by (rule eq)
  then have st: "st = st1" and out: "outs = o1 @ [OnComplete (isCorrect node (placements st1))]"
    by blast+
  let ?I = "\<lambda>s::QuizState. distinct (js_keys (placements s))
      \<and> set (js_keys (placements s)) = target_id ` set (targets node) - {''__proto__''}
      \<and> distinct (assigned (placements s))"
  have inv: "?I st1"
  proof (rule run_invariant[where I = ?I, OF r1])
    show "?I (initialState node)"
      by (simp add: initialState_def distinct_js_keys_initialPlacements
          set_js_keys_initialPlacements_distinct[OF assms(3)] assigned_initialPlacements)
  next
    fix s ev
    assume I: "?I s" and mem: "ev \<in> set evs"
    show "?I (fst (fire node s ev))"
    proof (cases ev)
      case (DragStart i)
      then show ?thesis using I by (simp add: handleDragStart_def)
    next
      case DragEnd
      then show ?thesis using I by (simp add: handleDragEnd_def)
    next
      case (Drop t')
      then have t': "t' \<in> set (js_keys (placements s)) \<or> t' = ''__proto__''"
        using assms(4) mem I by auto
      show ?thesis
        using I Drop t'
        by (simp add: placements_handleDrop js_keys_place distinct_assigned_place)
    next
      case CheckAnswer
      then show ?thesis using I by simp
    qed
  qed
  have "unplacedItems ?sh (placements st1) = []" using en by (simp add: allPlaced_def)
  then have "isComplete node (placements st1)"
    using inv assms(1,2,3) set_shuffledItems[of rnd node]
    by (intro all_placed_imp_complete[where shuffled = ?sh]) simp_all
  then show ?thesis using st out en r1 by simp
qed

theorem C2_check_only_when_complete_witness:
  "length (items esgNode) = length (targets esgNode)
   \<and> distinct (map item_id (items esgNode))
   \<and> distinct (map target_id (targets esgNode))
   \<and> run (shuffledItems rndLow esgNode) esgNode (initialState esgNode)
        ([DragStart ''a'', Drop ''E'', DragStart ''c'', Drop ''S'', DragStart ''b'', Drop ''S'',
          DragStart ''c'', Drop ''G''] @ [CheckAnswer])
      = Some (\<lparr>placements = [(''E'', Str ''a''), (''S'', Str ''b''), (''G'', Str ''c'')],
               draggedItem = Null\<rparr>, [OnComplete True])
   \<and> isComplete esgNode [(''E'', Str ''a''), (''S'', Str ''b''), (''G'', Str ''c'')]"
proof -
  let ?evs = "[DragStart ''a'', Drop ''E'', DragStart ''c'', Drop ''S'', DragStart ''b'', Drop ''S'',
          DragStart ''c'', Drop ''G'']"
  let ?st = "\<lparr>placements = [(''E'', Str ''a''), (''S'', Str ''b''), (''G'', Str ''c'')],
               draggedItem = Null\<rparr>"
  have h1: "length (items esgNode) = length (targets esgNode)" by (simp add: node_eval)
  have h2: "distinct (map item_id (items esgNode))" by (simp add: node_eval)
  have h3: "distinct (map target_id (targets esgNode))" by (simp add: node_eval)
  have h4: "\<forall>ev \<in> set ?evs. \<forall>t. ev = Drop t \<longrightarrow> t \<in> set (map target_id (targets esgNode))"
    by (simp add: node_eval)
  have h5: "run (shuffledItems rndLow esgNode) esgNode (initialState esgNode) (?evs @ [CheckAnswer])
      = Some (?st, [OnComplete True])"
    by (simp add: node_eval object_eval handler_eval)
  show ?thesis
    using h1 h2 h3 h5 C2_check_only_when_complete[OF h1 h2 h3 h4 h5] by simp
qed

text \<open>C2 as stated fails: on a node with one item and two targets the button is there
  once the item is placed; check-answer then fires and calls \<^verbatim>\<open>onComplete(false)\<close> while
  the second target is empty.\<close>

theorem C2_incomplete_submission_counterexample:
  "run (shuffledItems rndLow smallNode) smallNode (initialState smallNode)
       [DragStart ''a'', Drop ''E'', CheckAnswer]
     = Some (\<lparr>placements = [(''E'', Str ''a''), (''S'', Null)], draggedItem = Null\<rparr>,
             [OnComplete False])
   \<and> \<not> isComplete smallNode [(''E'', Str ''a''), (''S'', Null)]"
  by (simp add: node_eval object_eval handler_eval)

text \<open>
  C3 on the code. An item dragged from target E to the pool area: the drop handler is
  called with the id \<^verbatim>\<open>'unplaced'\<close> and treats it as one more target. The item is stored
  under a new key \<^verbatim>\<open>unplaced\<close>, so it is still a value of the object, the key set is no
  longer the set of target ids, and the item is missing from \<^verbatim>\<open>unplacedItems\<close>. It is
  rendered nowhere and cannot be dragged again. A second item dragged from a target to
  the pool is swapped with the first.
\<close>

theorem C3_pool_drop_adds_key:
  "run (shuffledItems rndHalf esgNode) esgNode (initialState esgNode)
       [DragStart ''a'', Drop ''E'', DragStart ''a'', Drop ''unplaced'']
     = Some (\<lparr>placements = [(''E'', Null), (''S'', Null), (''G'', Null), (''unplaced'', Str ''a'')],
              draggedItem = Null\<rparr>, [])
   \<and> unplacedItems (shuffledItems rndHalf esgNode)
        [(''E'', Null), (''S'', Null), (''G'', Null), (''unplaced'', Str ''a'')]
     = [mkItem ''b'', mkItem ''c'']
   \<and> \<not> enabled (shuffledItems rndHalf esgNode) esgNode
        \<lparr>placements = [(''E'', Null), (''S'', Null), (''G'', Null), (''unplaced'', Str ''a'')],
          draggedItem = Null\<rparr> (DragStart ''a'')
   \<and> place [(''E'', Str ''b''), (''S'', Null), (''G'', Null), (''unplaced'', Str ''a'')]
        (Str ''b'') ''unplaced''
     = [(''E'', Str ''a''), (''S'', Null), (''G'', Null), (''unplaced'', Str ''b'')]"
  by (simp add: node_eval object_eval handler_eval)

text \<open>
  C4, as the code has it. The conditions of \<^verbatim>\<open>handleDrop\<close> test truthiness, so an empty
  string counts as nothing. With no dragged item (\<^verbatim>\<open>null\<close>, or the empty id) the drop
  changes nothing. For a non-empty dragged id \<open>d\<close> and a key \<open>T\<close> of the placements: the
  keys stay as they are; \<open>T\<close> holds \<open>d\<close> and no other key does; every other key that did
  not hold \<open>d\<close> keeps its value; if \<open>T\<close> held a non-empty item \<open>e\<close> other than \<open>d\<close> and \<open>d\<close> was held by a key, the
  first such key \<open>K\<close>, when its id is non-empty, holds \<open>e\<close> afterwards (the swap); if no
  key held \<open>d\<close>, every key other than \<open>T\<close> keeps its value, so that an item \<open>e\<close> held by
  \<open>T\<close> alone is held by no key afterwards.
\<close>

theorem C4_place:
  "(\<not> truthy d \<longrightarrow> place p d T = p)
   \<and> (ds \<noteq> [] \<and> T \<in> set (js_keys p) \<longrightarrow>
        js_keys (place p (Str ds) T) = js_keys p
      \<and> js_get (place p (Str ds) T) T = Str ds
      \<and> (\<forall>k. k \<noteq> T \<longrightarrow> js_get (place p (Str ds) T) k \<noteq> Str ds)
      \<and> (\<forall>k. k \<noteq> T \<and> js_get p k \<noteq> Str ds \<longrightarrow> js_get (place p (Str ds) T) k = js_get p k)
      \<and> (\<forall>e K. js_get p T = Str e \<and> e \<noteq> [] \<and> e \<noteq> ds
              \<and> List.find (\<lambda>key. js_get p key = Str ds) (js_keys p) = Some K \<and> K \<noteq> []
              \<longrightarrow> js_get (place p (Str ds) T) K = Str e)
      \<and> ((\<forall>k. js_get p k \<noteq> Str ds) \<longrightarrow>
            (\<forall>k. k \<noteq> T \<longrightarrow> js_get (place p (Str ds) T) k = js_get p k)
          \<and> (\<forall>e. js_get p T = Str e \<and> (\<forall>k. k \<noteq> T \<longrightarrow> js_get p k \<noteq> Str e)
                 \<longrightarrow> (\<forall>k. js_get (place p (Str ds) T) k \<noteq> Str e))))"
proof -
  have noop: "\<not> truthy d \<longrightarrow> place p d T = p"
    by (simp add: place_falsy)
  have main: "js_keys (place p (Str ds) T) = js_keys p
      \<and> js_get (place p (Str ds) T) T = Str ds
      \<and> (\<forall>k. k \<noteq> T \<longrightarrow> js_get (place p (Str ds) T) k \<noteq> Str ds)
      \<and> (\<forall>k. k \<noteq> T \<and> js_get p k \<noteq> Str ds \<longrightarrow> js_get (place p (Str ds) T) k = js_get p k)
      \<and> (\<forall>e K. js_get p T = Str e \<and> e \<noteq> [] \<and> e \<noteq> ds
              \<and> List.find (\<lambda>key. js_get p key = Str ds) (js_keys p) = Some K \<and> K \<noteq> []
              \<longrightarrow> js_get (place p (Str ds) T) K = Str e)
      \<and> ((\<forall>k. js_get p k \<noteq> Str ds) \<longrightarrow>
            (\<forall>k. k \<noteq> T \<longrightarrow> js_get (place p (Str ds) T) k = js_get p k)
          \<and> (\<forall>e. js_get p T = Str e \<and> (\<forall>k. k \<noteq> T \<longrightarrow> js_get p k \<noteq> Str e)
                 \<longrightarrow> (\<forall>k. js_get (place p (Str ds) T) k \<noteq> Str e)))"
    if ds: "ds \<noteq> []" and T: "T \<in> set (js_keys p)"
  proof -
    have g: "\<And>x. js_get (place p (Str ds) T) x =
       (if truthy (js_get p T) \<and> js_get p T \<noteq> Str ds
           \<and> (\<exists>k. List.find (\<lambda>key. js_get p key = Str ds) (js_keys p) = Some k
                  \<and> k \<noteq> [] \<and> x = k)
        then js_get p T
        else if x = T then Str ds
        else if js_get p x = Str ds then Null else js_get p x)"
      using T by (simp add: js_get_place_Str[OF ds])
    have c1: "js_keys (place p (Str ds) T) = js_keys p" using T by (simp add: js_keys_place)
    have c2: "js_get (place p (Str ds) T) T = Str ds"
      unfolding g by (auto dest: find_key_Some)
    have c3: "\<forall>k. k \<noteq> T \<longrightarrow> js_get (place p (Str ds) T) k \<noteq> Str ds"
      unfolding g by auto
    have c4: "\<forall>k. k \<noteq> T \<and> js_get p k \<noteq> Str ds \<longrightarrow> js_get (place p (Str ds) T) k = js_get p k"
      unfolding g by (auto dest: find_key_Some)
    have c5: "\<forall>e K. js_get p T = Str e \<and> e \<noteq> [] \<and> e \<noteq> ds
              \<and> List.find (\<lambda>key. js_get p key = Str ds) (js_keys p) = Some K \<and> K \<noteq> []
              \<longrightarrow> js_get (place p (Str ds) T) K = Str e"
      unfolding g by auto
    have c6: "(\<forall>k. js_get p k \<noteq> Str ds) \<longrightarrow>
            (\<forall>k. k \<noteq> T \<longrightarrow> js_get (place p (Str ds) T) k = js_get p k)
          \<and> (\<forall>e. js_get p T = Str e \<and> (\<forall>k. k \<noteq> T \<longrightarrow> js_get p k \<noteq> Str e)
                 \<longrightarrow> (\<forall>k. js_get (place p (Str ds) T) k \<noteq> Str e))"
    proof (intro impI)
      assume none: "\<forall>k. js_get p k \<noteq> Str ds"
      have nf: "List.find (\<lambda>key. js_get p key = Str ds) (js_keys p) = None"
        using none find_key_None[of p ds] by blast
      have g': "\<And>x. js_get (place p (Str ds) T) x = (if x = T then Str ds else js_get p x)"
        unfolding g using nf none by simp
      show "(\<forall>k. k \<noteq> T \<longrightarrow> js_get (place p (Str ds) T) k = js_get p k)
          \<and> (\<forall>e. js_get p T = Str e \<and> (\<forall>k. k \<noteq> T \<longrightarrow> js_get p k \<noteq> Str e)
                 \<longrightarrow> (\<forall>k. js_get (place p (Str ds) T) k \<noteq> Str e))"
        using none by (auto simp: g')
    qed
    show ?thesis using c1 c2 c3 c4 c5 c6 by blast
  qed
  show ?thesis using noop main by blast
qed

theorem C4_place_witness:
  "\<not> truthy Null
   \<and> place [(''E'', Str ''a''), (''S'', Str ''b''), (''G'', Null)] Null ''S''
       = [(''E'', Str ''a''), (''S'', Str ''b''), (''G'', Null)]
   \<and> ''a'' \<noteq> [] \<and> ''S'' \<in> set (js_keys [(''E'', Str ''a''), (''S'', Str ''b''), (''G'', Null)])
   \<and> js_get [(''E'', Str ''a''), (''S'', Str ''b''), (''G'', Null)] ''S'' = Str ''b''
   \<and> List.find (\<lambda>key. js_get [(''E'', Str ''a''), (''S'', Str ''b''), (''G'', Null)] key = Str ''a'')
         (js_keys [(''E'', Str ''a''), (''S'', Str ''b''), (''G'', Null)]) = Some ''E''
   \<and> js_get (place [(''E'', Str ''a''), (''S'', Str ''b''), (''G'', Null)] (Str ''a'') ''S'') ''S''
       = Str ''a''
   \<and> js_get (place [(''E'', Str ''a''), (''S'', Str ''b''), (''G'', Null)] (Str ''a'') ''S'') ''E''
       = Str ''b''"
proof -
  let ?p = "[(''E'', Str ''a''), (''S'', Str ''b''), (''G'', Null)]"
  have h1: "\<not> truthy Null" by simp
  have h2: "''a'' \<noteq> [] \<and> ''S'' \<in> set (js_keys ?p)" by (simp add: object_eval)
  have h3: "js_get ?p ''S'' = Str ''b'' \<and> ''b'' \<noteq> [] \<and> ''b'' \<noteq> ''a''
      \<and> List.find (\<lambda>key. js_get ?p key = Str ''a'') (js_keys ?p) = Some ''E'' \<and> ''E'' \<noteq> []"
    by (simp add: object_eval)
  show ?thesis
    using h1 h2 h3 C4_place[of Null ?p "''S''" "''a''"] by blast
qed

text \<open>C4 as stated fails where an id is the empty string: an item with the empty id is
  not assigned to the target it is dropped on, and an item displaced by a drop is not
  moved to the vacated target when that target's id is empty.\<close>

theorem C4_empty_id_counterexample:
  "js_get (place [(''E'', Null), (''S'', Null)] (Str []) ''E'') ''E'' \<noteq> Str []
   \<and> js_get (place [([], Str ''a''), (''E'', Str ''e'')] (Str ''a'') ''E'') [] \<noteq> Str ''e''"
  by (simp add: object_eval handler_eval)

text \<open>
  C5. In every placements object reached from the initial one, where every target is
  \<^verbatim>\<open>null\<close>, by any sequence of drops (any dragged value, any target id, the pool
  included), the item ids among the values are pairwise different: no item occupies two
  targets.
\<close>

theorem C5_no_item_in_two_targets:
  "distinct (assigned (places (initialPlacements node) ops))"
  using places_invariant[of "initialPlacements node" ops]
  by (simp add: distinct_js_keys_initialPlacements assigned_initialPlacements)

text \<open>
  C6. The check of \<^verbatim>\<open>handleCheckAnswer\<close> is true exactly when every target's slot holds
  that target's \<^verbatim>\<open>correctItemId\<close>, and this value is what \<^verbatim>\<open>onComplete\<close> receives;
  from a correct assignment, giving one target any other value makes the check false;
  on the example node, dropping a on E, b on S and c on G is correct, and a on S, b on
  E, c on G is not.
\<close>

theorem C6_check_correctness:
  "(isCorrect node p \<longleftrightarrow>
      (\<forall>t \<in> set (targets node). js_get p (target_id t) = Str (correctItemId t)))
   \<and> handleCheckAnswer node st = OnComplete (isCorrect node (placements st))
   \<and> (isCorrect node p \<and> t \<in> set (targets node) \<and> v \<noteq> Str (correctItemId t)
        \<longrightarrow> \<not> isCorrect node (js_set p (target_id t) v))
   \<and> isCorrect esgNode
        (places (initialPlacements esgNode)
           [(Str ''a'', ''E''), (Str ''b'', ''S''), (Str ''c'', ''G'')])
   \<and> \<not> isCorrect esgNode
        (places (initialPlacements esgNode)
           [(Str ''a'', ''S''), (Str ''b'', ''E''), (Str ''c'', ''G'')])"
proof -
  have iff: "isCorrect node p \<longleftrightarrow>
      (\<forall>t \<in> set (targets node). js_get p (target_id t) = Str (correctItemId t))"
    by (simp add: isCorrect_def list_all_iff)
  have flip: "isCorrect node p \<and> t \<in> set (targets node) \<and> v \<noteq> Str (correctItemId t)
        \<longrightarrow> \<not> isCorrect node (js_set p (target_id t) v)"
  proof (intro impI, elim conjE)
    assume t: "t \<in> set (targets node)" and v: "v \<noteq> Str (correctItemId t)"
    have "js_get (js_set p (target_id t) v) (target_id t) \<noteq> Str (correctItemId t)"
      using v js_get_proto_not_own[of p] by (auto simp: js_get_set)
    then show "\<not> isCorrect node (js_set p (target_id t) v)"
      using t unfolding isCorrect_def list_all_iff by blast
  qed
  have ex1: "isCorrect esgNode
        (places (initialPlacements esgNode)
           [(Str ''a'', ''E''), (Str ''b'', ''S''), (Str ''c'', ''G'')])"
    by (simp add: node_eval object_eval handler_eval)
  have ex2: "\<not> isCorrect esgNode
        (places (initialPlacements esgNode)
           [(Str ''a'', ''S''), (Str ''b'', ''E''), (Str ''c'', ''G'')])"
    by (simp add: node_eval object_eval handler_eval)
  show ?thesis using iff flip ex1 ex2 by (simp add: handleCheckAnswer_def)
qed

theorem C6_check_correctness_witness:
  "isCorrect esgNode [(''E'', Str ''a''), (''S'', Str ''b''), (''G'', Str ''c'')]
   \<and> mkTarget ''E'' ''a'' \<in> set (targets esgNode)
   \<and> Str ''b'' \<noteq> Str (correctItemId (mkTarget ''E'' ''a''))
   \<and> \<not> isCorrect esgNode
        (js_set [(''E'', Str ''a''), (''S'', Str ''b''), (''G'', Str ''c'')]
           (target_id (mkTarget ''E'' ''a'')) (Str ''b''))"
proof -
  have a: "isCorrect esgNode [(''E'', Str ''a''), (''S'', Str ''b''), (''G'', Str ''c'')]"
    by (simp add: node_eval object_eval handler_eval)
  have b: "mkTarget ''E'' ''a'' \<in> set (targets esgNode)"
    by (simp add: node_eval)
  have c: "Str ''b'' \<noteq> Str (correctItemId (mkTarget ''E'' ''a''))"
    by (simp add: node_eval)
  show ?thesis
    using a b c
      C6_check_correctness[of esgNode "[(''E'', Str ''a''), (''S'', Str ''b''), (''G'', Str ''c'')]"
        _ "mkTarget ''E'' ''a''" "Str ''b''"]
    by blast
qed

text \<open>
  C7, as the code has it. For every node none of whose targets is named \<^verbatim>\<open>__proto__\<close>,
  initialisation gives a placements object whose keys are exactly the node's target ids.
  For every node the keys are target ids of the node, each once, every value is
  \<^verbatim>\<open>null\<close>, and the shuffled sequence is a permutation of the node's items (same
  multiset, same length) whatever numbers the randomness source returns.
\<close>

theorem C7_initialize:
  "(''__proto__'' \<notin> set (map target_id (targets node)) \<longrightarrow>
      set (js_keys (initialPlacements node)) = set (map target_id (targets node)))
   \<and> set (js_keys (initialPlacements node)) \<subseteq> set (map target_id (targets node))
   \<and> distinct (js_keys (initialPlacements node))
   \<and> set (js_values (initialPlacements node)) \<subseteq> {Null}
   \<and> placements (initialState node) = initialPlacements node
   \<and> mset (shuffledItems rnd node) = mset (items node)
   \<and> length (shuffledItems rnd node) = length (items node)"
  using js_keys_initialPlacements_upper[of node]
  by (simp add: set_js_keys_initialPlacements distinct_js_keys_initialPlacements
      js_values_initialPlacements mset_shuffledItems length_shuffledItems initialState_def)

theorem C7_initialize_witness:
  "''__proto__'' \<notin> set (map target_id (targets esgNode))
   \<and> set (js_keys (initialPlacements esgNode)) = set (map target_id (targets esgNode))
   \<and> set (js_values (initialPlacements esgNode)) \<subseteq> {Null}
   \<and> mset (shuffledItems rndHalf esgNode) = mset (items esgNode)"
proof -
  have h: "''__proto__'' \<notin> set (map target_id (targets esgNode))"
    by (simp add: node_eval)
  show ?thesis using h C7_initialize[of esgNode rndHalf] by blast
qed

text \<open>C7 as stated fails: for a node with the targets \<^verbatim>\<open>__proto__\<close> and E the assignment
  \<^verbatim>\<open>acc['__proto__'] = null\<close> runs the inherited setter, and E is the only key.\<close>

theorem C7_proto_target_counterexample:
  "initialPlacements protoNode = [(''E'', Null)]
   \<and> set (js_keys (initialPlacements protoNode)) \<noteq> set (map target_id (targets protoNode))"
  by (simp add: node_eval object_eval handler_eval)

text \<open>
  C8, as the code has it. The shuffled order is a permutation of the node's items for
  every randomness source, but it need not differ from the declared order: when every
  call of \<^verbatim>\<open>Math.random\<close> returns a half, every comparator call returns zero, nothing
  is exchanged (as in any stable sort) and the declared order is kept.
\<close>

theorem C8_shuffle_may_keep_order:
  "mset (shuffledItems rnd node) = mset (items node)
   \<and> ((\<forall>n. rnd n = 1 / 2) \<longrightarrow> shuffledItems rnd node = items node)"
  by (simp add: mset_shuffledItems shuffledItems_keep)

theorem C8_shuffle_may_keep_order_witness:
  "(\<forall>n. rndHalf n = 1 / 2) \<and> mset (shuffledItems rndHalf esgNode) = mset (items esgNode)
   \<and> shuffledItems rndHalf esgNode = items esgNode"
  using C8_shuffle_may_keep_order[of rndHalf esgNode] by (simp add: rndHalf_def)

text \<open>C8 as stated fails: a node with three items whose shuffle is the declared order.\<close>

theorem C8_shuffle_identity_counterexample:
  "2 \<le> length (items esgNode) \<and> shuffledItems rndHalf esgNode = items esgNode"
  by (simp add: node_eval handler_eval)

text \<open>
  C9, as the code has it. After every sequence of user actions the dragged value is
  \<^verbatim>\<open>null\<close> or the id of an item of the node, since only the node's items are draggable,
  and every item id among the values of the placements is the id of an item of the node:
  no foreign id is ever inserted. A drop while the dragged value is not an id of the
  node, which then means that nothing of the node is being dragged, is a no-op: the state
  is unchanged and the handler makes no call, so no warning is reported.
\<close>

theorem C9_foreign_drop_changes_nothing:
  "run (shuffledItems rnd node) node (initialState node) evs = Some (st, outs) \<longrightarrow>
     (draggedItem st = Null
      \<or> draggedItem st \<in> set (map (\<lambda>item. Str (item_id item)) (items node)))
   \<and> set (assigned (placements st)) \<subseteq> set (map item_id (items node))
   \<and> (draggedItem st \<notin> set (map (\<lambda>item. Str (item_id item)) (items node))
        \<longrightarrow> fire node st (Drop t) = (st, []))"
proof
  assume r: "run (shuffledItems rnd node) node (initialState node) evs = Some (st, outs)"
  let ?I = "\<lambda>s::QuizState. distinct (js_keys (placements s))
      \<and> set (assigned (placements s)) \<subseteq> item_id ` set (items node)
      \<and> (draggedItem s = Null \<or> draggedItem s \<in> (\<lambda>item. Str (item_id item)) ` set (items node))"
  have inv: "?I st"
  proof (rule run_invariant[where I = ?I, OF r])
    show "?I (initialState node)"
      by (simp add: initialState_def distinct_js_keys_initialPlacements assigned_initialPlacements)
  next
    fix s ev
    assume I: "?I s" and en: "enabled (shuffledItems rnd node) node s ev"
    show "?I (fst (fire node s ev))"
    proof (cases ev)
      case (DragStart i)
      have "i \<in> item_id ` set (items node)"
        using en DragStart enabled_DragStart_item[of "shuffledItems rnd node" node s i]
        by (simp add: set_shuffledItems)
      then show ?thesis using I DragStart by (auto simp: handleDragStart_def)
    next
      case DragEnd
      then show ?thesis using I by (simp add: handleDragEnd_def)
    next
      case (Drop t')
      have d: "distinct (js_keys (place (placements s) (draggedItem s) t'))"
        using I by (simp add: distinct_js_keys_place)
      have a: "set (assigned (place (placements s) (draggedItem s) t'))
          \<subseteq> item_id ` set (items node)"
        using assigned_place_subset[of "placements s" "draggedItem s" t'] I by auto
      show ?thesis
        using I d a Drop by (simp add: placements_handleDrop draggedItem_handleDrop)
    next
      case CheckAnswer
      then show ?thesis using I by simp
    qed
  qed
  have noop: "fire node st (Drop t) = (st, [])"
    if "draggedItem st \<notin> set (map (\<lambda>item. Str (item_id item)) (items node))"
  proof -
    have "draggedItem st = Null" using inv that by auto
    then show ?thesis by (simp add: handleDrop_def)
  qed
  show "(draggedItem st = Null
      \<or> draggedItem st \<in> set (map (\<lambda>item. Str (item_id item)) (items node)))
   \<and> set (assigned (placements st)) \<subseteq> set (map item_id (items node))
   \<and> (draggedItem st \<notin> set (map (\<lambda>item. Str (item_id item)) (items node))
        \<longrightarrow> fire node st (Drop t) = (st, []))"
    using inv noop by auto
qed

theorem C9_foreign_drop_changes_nothing_witness:
  "run (shuffledItems rndHalf esgNode) esgNode (initialState esgNode)
        [DragStart ''a'', Drop ''E'']
      = Some (\<lparr>placements = [(''E'', Str ''a''), (''S'', Null), (''G'', Null)],
               draggedItem = Null\<rparr>, [])
   \<and> set (assigned [(''E'', Str ''a''), (''S'', Null), (''G'', Null)])
       \<subseteq> set (map item_id (items esgNode))
   \<and> Null \<notin> set (map (\<lambda>item. Str (item_id item)) (items esgNode))
   \<and> fire esgNode \<lparr>placements = [(''E'', Str ''a''), (''S'', Null), (''G'', Null)],
                      draggedItem = Null\<rparr> (Drop ''S'')
      = (\<lparr>placements = [(''E'', Str ''a''), (''S'', Null), (''G'', Null)],
           draggedItem = Null\<rparr>, [])"
proof -
  let ?st = "\<lparr>placements = [(''E'', Str ''a''), (''S'', Null), (''G'', Null)],
               draggedItem = Null\<rparr>"
  have h1: "run (shuffledItems rndHalf esgNode) esgNode (initialState esgNode)
        [DragStart ''a'', Drop ''E''] = Some (?st, [])"
    by (simp add: node_eval object_eval handler_eval)
  have h2: "draggedItem ?st \<notin> set (map (\<lambda>item. Str (item_id item)) (items esgNode))"
    by (simp add: node_eval)
  show ?thesis
    using h1 h2
      C9_foreign_drop_changes_nothing[of rndHalf esgNode "[DragStart ''a'', Drop ''E'']" ?st "[]"
        "''S''"]
    by simp
qed

text \<open>C9 as stated fails: a drop on E while nothing of the node is dragged leaves the
  state as it is, and no warning is among the calls made: there is none.\<close>

theorem C9_no_warning_counterexample:
  "draggedItem (initialState esgNode)
     \<notin> set (map (\<lambda>item. Str (item_id item)) (items esgNode))
   \<and> run (shuffledItems rndHalf esgNode) esgNode (initialState esgNode) [Drop ''E'']
       = Some (initialState esgNode, [])"
  by (simp add: node_eval object_eval handler_eval)

text \<open>
  C10. When some target of the node is unassigned (\<^verbatim>\<open>null\<close>), the check computes
  \<^verbatim>\<open>isCorrect = false\<close>: \<^verbatim>\<open>handleCheckAnswer\<close> calls \<^verbatim>\<open>onComplete(false)\<close>.
\<close>

theorem C10_unassigned_target_is_incorrect:
  "t \<in> set (targets node) \<Longrightarrow> js_get (placements st) (target_id t) = Null
   \<Longrightarrow> \<not> isCorrect node (placements st) \<and> handleCheckAnswer node st = OnComplete False"
proof -
  assume t: "t \<in> set (targets node)" and n: "js_get (placements st) (target_id t) = Null"
  have "js_get (placements st) (target_id t) \<noteq> Str (correctItemId t)" using n by simp
  then have "\<not> isCorrect node (placements st)"
    using t unfolding isCorrect_def list_all_iff by blast
  then show ?thesis by (simp add: handleCheckAnswer_def)
qed

theorem C10_unassigned_target_is_incorrect_witness:
  "mkTarget ''S'' ''b'' \<in> set (targets esgNode)
   \<and> js_get (placements (initialState esgNode)) (target_id (mkTarget ''S'' ''b'')) = Null
   \<and> \<not> isCorrect esgNode (placements (initialState esgNode))
   \<and> handleCheckAnswer esgNode (initialState esgNode) = OnComplete False"
proof -
  have a: "mkTarget ''S'' ''b'' \<in> set (targets esgNode)"
    by (simp add: node_eval)
  have b: "js_get (placements (initialState esgNode)) (target_id (mkTarget ''S'' ''b'')) = Null"
    by (simp add: node_eval object_eval handler_eval)
  show ?thesis
    using a b C10_unassigned_target_is_incorrect[OF a b] by simp
qed

end
